theory Spec2Isabelle
  imports Complex_Main "HOL-Library.Multiset"
begin

section \<open>Harmonia: the playback queue, the history stack and the controller\<close>

text \<open>
  This theory embeds \<^verbatim>\<open>Harmonia/Harmonia.py\<close>: the classes \<^verbatim>\<open>Song\<close>, \<^verbatim>\<open>Node\<close>,
  \<^verbatim>\<open>Stack\<close> and \<^verbatim>\<open>DoublyLinkedList\<close>, and the methods of \<^verbatim>\<open>HarmoniaApp\<close> that drive
  playback. Python objects are mutable and shared, so the \<^verbatim>\<open>Node\<close> objects live in an
  explicit store and a reference to a node is its index in that store.
\<close>

subsection \<open>Song and Node\<close>

text \<open>
  \<^verbatim>\<open>Song\<close> defines no \<^verbatim>\<open>__eq__\<close>, so Python compares songs by object identity. A value
  of type \<open>song\<close> stands for one \<^verbatim>\<open>Song\<close> object: \<open>ident\<close> is the identity of the object
  and the three other fields are its attributes, which the program never reassigns.
  HOL equality on \<open>song\<close> is then Python's \<^verbatim>\<open>==\<close> on the objects. A song object is
  always truthy.
\<close>

record song =
  ident :: nat
  title :: string
  artist :: string
  path :: "string option"

text \<open>
  A \<^verbatim>\<open>Node\<close> object: its data and its two links. \<open>None\<close> is Python's \<^verbatim>\<open>None\<close>, \<open>Some a\<close>
  is a reference to the node stored at index \<open>a\<close>.
\<close>

record 'a node =
  data :: 'a
  "next" :: "nat option"
  prev :: "nat option"

definition Node :: "'a \<Rightarrow> 'a node" where
  "Node d = \<lparr>data = d, next = None, prev = None\<rparr>"

text \<open>Attribute assignment \<^verbatim>\<open>a.next = v\<close> and \<^verbatim>\<open>a.prev = v\<close> on the node at index \<open>a\<close>.\<close>

definition set_next :: "nat \<Rightarrow> nat option \<Rightarrow> 'a node list \<Rightarrow> 'a node list" where
  "set_next a v st = st[a := (st ! a)\<lparr>next := v\<rparr>]"

definition set_prev :: "nat \<Rightarrow> nat option \<Rightarrow> 'a node list \<Rightarrow> 'a node list" where
  "set_prev a v st = st[a := (st ! a)\<lparr>prev := v\<rparr>]"

subsection \<open>Stack\<close>

text \<open>
  The history stack: a Python list whose top is its last element. \<^verbatim>\<open>pop\<close> returns the
  popped item, or \<^verbatim>\<open>None\<close> on an empty stack, together with the stack it leaves.
\<close>

record 'a stack =
  items :: "'a list"

definition Stack :: "'a stack" where
  "Stack = \<lparr>items = []\<rparr>"

definition push :: "'a \<Rightarrow> 'a stack \<Rightarrow> 'a stack" where
  "push item s = s\<lparr>items := items s @ [item]\<rparr>"

definition is_empty_stack :: "'a stack \<Rightarrow> bool" where
  "is_empty_stack s = (length (items s) = 0)"

definition pop :: "'a stack \<Rightarrow> 'a option \<times> 'a stack" where
  "pop s = (if \<not> is_empty_stack s then (Some (last (items s)), s\<lparr>items := butlast (items s)\<rparr>)
            else (None, s))"

text \<open>
  A client of the stack performs pushes and pops. \<open>run_ops\<close> applies them in order;
  \<open>unpopped\<close> follows the words of the specification and counts the pushed items that no
  pop has taken yet (a pop of an empty stack takes nothing).
\<close>

datatype 'a stack_op = Push 'a | Pop

fun run_ops :: "'a stack_op list \<Rightarrow> 'a stack \<Rightarrow> 'a stack" where
  "run_ops [] s = s"
| "run_ops (Push x # ops) s = run_ops ops (push x s)"
| "run_ops (Pop # ops) s = run_ops ops (snd (pop s))"

fun unpopped :: "'a stack_op list \<Rightarrow> nat \<Rightarrow> nat" where
  "unpopped [] n = n"
| "unpopped (Push x # ops) n = unpopped ops (Suc n)"
| "unpopped (Pop # ops) n = unpopped ops (n - 1)"

subsection \<open>DoublyLinkedList\<close>

text \<open>
  The queue object: its three references and its counter, together with the store of
  the \<^verbatim>\<open>Node\<close> objects they refer to. Python never frees a node that is still referenced
  (the history stack may hold one), so the store only grows: \<^verbatim>\<open>Node(data)\<close> allocates
  the next index. \<^verbatim>\<open>size\<close> is a Python integer, hence \<open>int\<close>.
\<close>

record 'a dll =
  store :: "'a node list"
  head :: "nat option"
  tail :: "nat option"
  current :: "nat option"
  size_dll :: int

definition DoublyLinkedList :: "'a dll" where
  "DoublyLinkedList = \<lparr>store = [], head = None, tail = None, current = None, size_dll = 0\<rparr>"

text \<open>
  A result \<open>None\<close> of an operation means that the Python call does not return: an
  exception escapes from it or a loop in it never ends. \<^verbatim>\<open>append\<close> raises
  \<^verbatim>\<open>AttributeError\<close> at \<^verbatim>\<open>self.tail.next\<close> when \<^verbatim>\<open>head\<close> is set and \<^verbatim>\<open>tail\<close> is not.
\<close>

definition append_dll :: "'a \<Rightarrow> 'a dll \<Rightarrow> 'a dll option" where
  "append_dll d q =
     (let new_node = length (store q);
          q1 = q\<lparr>store := store q @ [Node d]\<rparr>
      in if head q1 = None
         then Some (q1\<lparr>head := Some new_node, tail := Some new_node,
                       current := Some new_node, size_dll := size_dll q1 + 1\<rparr>)
         else (case tail q1 of
                 None \<Rightarrow> None
               | Some t \<Rightarrow>
                   Some (q1\<lparr>store := set_next t (Some new_node)
                                        (set_prev new_node (Some t) (store q1)),
                             tail := Some new_node, size_dll := size_dll q1 + 1\<rparr>)))"

definition clear :: "'a dll \<Rightarrow> 'a dll" where
  "clear q = q\<lparr>head := None, tail := None, current := None, size_dll := 0\<rparr>"

text \<open>
  \<^verbatim>\<open>remove_node\<close>, statement by statement: each \<open>q\<^sub>i\<close> is the state after the \<open>i\<close>-th
  statement, and every attribute is read from the state in which Python reads it.
\<close>

definition remove_node :: "nat option \<Rightarrow> 'a dll \<Rightarrow> 'a dll" where
  "remove_node node q =
     (case node of
        None \<Rightarrow> q
      | Some n \<Rightarrow>
          (let q1 = (if Some n = head q then q\<lparr>head := next (store q ! n)\<rparr> else q);
               q2 = (if Some n = tail q1 then q1\<lparr>tail := prev (store q1 ! n)\<rparr> else q1);
               q3 = (case prev (store q2 ! n) of
                       Some p \<Rightarrow> q2\<lparr>store := set_next p (next (store q2 ! n)) (store q2)\<rparr>
                     | None \<Rightarrow> q2);
               q4 = (case next (store q3 ! n) of
                       Some x \<Rightarrow> q3\<lparr>store := set_prev x (prev (store q3 ! n)) (store q3)\<rparr>
                     | None \<Rightarrow> q3);
               q5 = (if Some n = current q4
                     then q4\<lparr>current := (case next (store q4 ! n) of
                                            Some x \<Rightarrow> Some x
                                          | None \<Rightarrow> prev (store q4 ! n))\<rparr>
                     else q4)
           in q5\<lparr>store := set_prev n None (set_next n None (store q5)),
                  size_dll := size_dll q5 - 1\<rparr>))"

text \<open>
  \<^verbatim>\<open>get_node_at_index\<close>: the inner \<open>None\<close> is the \<^verbatim>\<open>None\<close> that Python returns for an index
  out of range; the outer \<open>None\<close> is the \<^verbatim>\<open>AttributeError\<close> of \<^verbatim>\<open>temp.next\<close> when the chain
  is shorter than \<^verbatim>\<open>size\<close> says.
\<close>

fun walk :: "nat \<Rightarrow> 'a node list \<Rightarrow> nat option \<Rightarrow> nat option option" where
  "walk 0 st temp = Some temp"
| "walk (Suc k) st temp =
     (case temp of None \<Rightarrow> None | Some a \<Rightarrow> walk k st (next (st ! a)))"

definition get_node_at_index :: "int \<Rightarrow> 'a dll \<Rightarrow> nat option option" where
  "get_node_at_index index q =
     (if index < 0 \<or> index \<ge> size_dll q then Some None
      else walk (nat index) (store q) (head q))"

definition swap_nodes :: "nat option \<Rightarrow> nat option \<Rightarrow> 'a dll \<Rightarrow> 'a dll" where
  "swap_nodes node1 node2 q =
     (case (node1, node2) of
        (Some n1, Some n2) \<Rightarrow>
          (if next (store q ! n1) \<noteq> Some n2 then q
           else
             (let prev_node = prev (store q ! n1);
                  next_node = next (store q ! n2);
                  q1 = (case prev_node of
                          Some p \<Rightarrow> q\<lparr>store := set_next p (Some n2) (store q)\<rparr>
                        | None \<Rightarrow> q\<lparr>head := Some n2\<rparr>);
                  q2 = (case next_node of
                          Some x \<Rightarrow> q1\<lparr>store := set_prev x (Some n1) (store q1)\<rparr>
                        | None \<Rightarrow> q1\<lparr>tail := Some n1\<rparr>)
              in q2\<lparr>store := set_next n1 next_node
                                 (set_prev n1 (Some n2)
                                   (set_next n2 (Some n1)
                                     (set_prev n2 prev_node (store q2))))\<rparr>))
      | _ \<Rightarrow> q)"

text \<open>
  The loop \<^verbatim>\<open>while temp: nodes.append(temp); temp = temp.next\<close> of \<^verbatim>\<open>shuffle\<close> and
  \<^verbatim>\<open>show_queue\<close>. It ends exactly when the chain from \<^verbatim>\<open>temp\<close> reaches \<^verbatim>\<open>None\<close>, which
  a chain in a store of \<open>n\<close> nodes does within \<open>n\<close> steps or never. \<open>traverse\<close> runs the
  loop on a given number of steps and \<open>nodes_of\<close> gives it as many as the store has
  nodes, so \<open>None\<close> is the loop that never ends (\<open>traverse_fuel_enough\<close> below).
\<close>

fun traverse :: "nat \<Rightarrow> 'a node list \<Rightarrow> nat option \<Rightarrow> nat list option" where
  "traverse fuel st None = Some []"
| "traverse 0 st (Some a) = None"
| "traverse (Suc fuel) st (Some a) = map_option ((#) a) (traverse fuel st (next (st ! a)))"

definition nodes_of :: "'a dll \<Rightarrow> nat list option" where
  "nodes_of q = traverse (length (store q)) (store q) (head q)"

definition songs_of :: "'a dll \<Rightarrow> 'a list option" where
  "songs_of q = map_option (map (\<lambda>a. data (store q ! a))) (nodes_of q)"

text \<open>
  \<^verbatim>\<open>shuffle\<close>. \<open>draw i\<close> is the number that \<^verbatim>\<open>random.randint(0, i)\<close> returns in the
  iteration for \<open>i\<close>, so \<open>draw i \<le> i\<close>. The Python list \<^verbatim>\<open>nodes\<close> is a list of references;
  \<^verbatim>\<open>nodes[0]\<close> raises \<^verbatim>\<open>IndexError\<close> on the empty list.
\<close>

definition swap :: "nat \<Rightarrow> nat \<Rightarrow> 'b list \<Rightarrow> 'b list" where
  "swap i j xs = xs[i := xs ! j, j := xs ! i]"

fun fisher_yates :: "(nat \<Rightarrow> nat) \<Rightarrow> nat \<Rightarrow> 'b list \<Rightarrow> 'b list" where
  "fisher_yates draw 0 xs = xs"
| "fisher_yates draw (Suc i) xs = fisher_yates draw i (swap (Suc i) (draw (Suc i)) xs)"

definition relink_step :: "nat list \<Rightarrow> nat \<Rightarrow> 'a node list \<Rightarrow> nat \<Rightarrow> 'a node list" where
  "relink_step nodes n st k =
     (let st1 = (if k > 0 then set_prev (nodes ! k) (Some (nodes ! (k - 1))) st else st)
      in if k < n - 1 then set_next (nodes ! k) (Some (nodes ! (k + 1))) st1 else st1)"

definition shuffle :: "(nat \<Rightarrow> nat) \<Rightarrow> 'a dll \<Rightarrow> 'a dll option" where
  "shuffle draw q =
     (if size_dll q < 2 then Some q
      else
        (case nodes_of q of
           None \<Rightarrow> None
         | Some nodes0 \<Rightarrow>
             (let n = length nodes0;
                  nodes = fisher_yates draw (n - 1) nodes0
              in if nodes = [] then None
                 else
                   (let q1 = q\<lparr>head := Some (nodes ! 0)\<rparr>;
                        q2 = q1\<lparr>tail := Some (last nodes)\<rparr>;
                        st3 = set_prev (the (head q2)) None (store q2);
                        st4 = set_next (the (tail q2)) None st3
                    in Some (q2\<lparr>store := foldl (relink_step nodes n) st4 [0..<n]\<rparr>)))))"

subsection \<open>HarmoniaApp: state\<close>

text \<open>
  The attributes of \<^verbatim>\<open>HarmoniaApp\<close> that playback reads or writes, the module constant
  \<^verbatim>\<open>HAS_DEPS\<close>, the texts of the widgets that show what is playing, and \<open>mixer\<close>, the
  calls made to \<^verbatim>\<open>pygame.mixer.music\<close> so far, oldest first. The library, the playlists,
  the slider canvas and the colours of the buttons are not part of the model. The history
  stack holds references to nodes.
\<close>

datatype icon = Play_icon | Pause_icon

text \<open>
  The text of \<^verbatim>\<open>lbl_total_time\<close>: the literal \<^verbatim>\<open>"0:00"\<close>, or \<^verbatim>\<open>format_time\<close> of a length.
\<close>

datatype time_label = Zero_label | Formatted real

datatype mixer_call = Load "string option" | Play | Pause | Unpause | Stop

record app =
  queue :: "song dll"
  history :: "nat stack"
  current_view_songs :: "song list"
  active_playlist_name :: string
  is_looping :: bool
  is_shuffled :: bool
  is_playing :: bool
  song_length :: real
  start_time :: real
  current_time :: real
  has_deps :: bool
  mixer :: "mixer_call list"
  btn_play :: icon
  lbl_now_title :: string
  lbl_now_artist :: string
  lbl_total_time :: time_label

text \<open>
  What the audio backend answers during one call of \<^verbatim>\<open>play_current\<close>: the length that
  \<^verbatim>\<open>Sound(path).get_length()\<close> returns (\<open>None\<close> when it raises), whether
  \<^verbatim>\<open>music.load\<close> and \<^verbatim>\<open>music.play\<close> return (\<open>False\<close> when they raise), and the answer of
  \<^verbatim>\<open>music.get_busy()\<close> in \<^verbatim>\<open>check_music_end\<close>. The other calls to the backend and to
  the widgets are taken to return.
\<close>

record reply =
  sound_length :: "real option"
  load_ok :: bool
  play_ok :: bool
  busy :: bool

subsection \<open>HarmoniaApp: playing\<close>

text \<open>
  \<^verbatim>\<open>play_current\<close> calls \<^verbatim>\<open>check_music_end\<close>, which calls \<^verbatim>\<open>play_next\<close> when the backend
  is not busy, which calls \<^verbatim>\<open>play_current\<close> again. The first argument is the list of
  the replies of the backend to the calls of \<^verbatim>\<open>play_current\<close> still to come; each call
  that reaches the backend takes the first. The result is \<open>None\<close> when the call has not
  returned by the end of that list. The timer that \<^verbatim>\<open>check_music_end\<close> sets with
  \<^verbatim>\<open>root.after\<close> fires after the call has returned and is a later event.
\<close>

function play_current :: "reply list \<Rightarrow> app \<Rightarrow> app option"
  and check_music_end :: "bool \<Rightarrow> reply list \<Rightarrow> app \<Rightarrow> app option"
  and play_next :: "reply list \<Rightarrow> app \<Rightarrow> app option"
where
  "play_current rs a =
     (if current (queue a) = None \<or> \<not> has_deps a then Some a
      else
        (case rs of
           [] \<Rightarrow> None
         | r # rs' \<Rightarrow>
             (let sng = data (store (queue a) ! the (current (queue a)));
                  a1 = (case sound_length r of
                          Some l \<Rightarrow> a\<lparr>song_length := l, lbl_total_time := Formatted l\<rparr>
                        | None \<Rightarrow> a\<lparr>song_length := 0, lbl_total_time := Zero_label\<rparr>);
                  a2 = a1\<lparr>current_time := 0\<rparr>
              in if \<not> load_ok r then Some a2
                 else
                   (let a3 = a2\<lparr>mixer := mixer a2 @ [Load (path sng)]\<rparr>
                    in if \<not> play_ok r then Some a3
                       else
                         check_music_end (busy r) rs'
                           (a3\<lparr>mixer := mixer a3 @ [Play], is_playing := True,
                                btn_play := Pause_icon, lbl_now_title := title sng,
                                lbl_now_artist := artist sng, start_time := 0\<rparr>)))))"
| "check_music_end b rs a =
     (if is_playing a \<and> \<not> b then play_next rs a else Some a)"
| "play_next rs a =
     (case current (queue a) of
        None \<Rightarrow> Some a
      | Some c \<Rightarrow>
          (let a1 = a\<lparr>history := push c (history a)\<rparr>
           in case next (store (queue a1) ! c) of
                Some x \<Rightarrow> play_current rs (a1\<lparr>queue := (queue a1)\<lparr>current := Some x\<rparr>\<rparr>)
              | None \<Rightarrow>
                  (if is_looping a1
                   then play_current rs (a1\<lparr>queue := (queue a1)\<lparr>current := head (queue a1)\<rparr>\<rparr>)
                   else Some (a1\<lparr>is_playing := False, btn_play := Play_icon\<rparr>))))"
  by pat_completeness auto
termination
  by (relation "measure (\<lambda>x. case x of
                    Inl (rs, a) \<Rightarrow> 3 * length rs
                  | Inr (Inl (b, rs, a)) \<Rightarrow> 3 * length rs + 2
                  | Inr (Inr (rs, a)) \<Rightarrow> 3 * length rs + 1)") auto

definition play_prev :: "reply list \<Rightarrow> app \<Rightarrow> app option" where
  "play_prev rs a =
     (if \<not> is_empty_stack (history a)
      then (let (x, h) = pop (history a)
            in play_current rs (a\<lparr>history := h, queue := (queue a)\<lparr>current := x\<rparr>\<rparr>))
      else
        (case current (queue a) of
           None \<Rightarrow> Some a
         | Some c \<Rightarrow>
             (case prev (store (queue a) ! c) of
                None \<Rightarrow> Some a
              | Some p \<Rightarrow> play_current rs (a\<lparr>queue := (queue a)\<lparr>current := Some p\<rparr>\<rparr>))))"

subsection \<open>HarmoniaApp: building the queue from the view\<close>

text \<open>
  The loop \<^verbatim>\<open>for song in songs: self.queue.append(song)\<close> of \<^verbatim>\<open>add_playlist_to_queue\<close>.
\<close>

fun append_all :: "'a list \<Rightarrow> 'a dll \<Rightarrow> 'a dll option" where
  "append_all [] q = Some q"
| "append_all (x # xs) q =
     (case append_dll x q of None \<Rightarrow> None | Some q' \<Rightarrow> append_all xs q')"

text \<open>
  The loop of \<^verbatim>\<open>play_specific_song\<close> and of \<^verbatim>\<open>toggle_shuffle\<close>: it appends the songs of
  the view and remembers the node of the last song that is the wanted one. In
  \<^verbatim>\<open>play_specific_song\<close> the test is \<^verbatim>\<open>s == song\<close>; in \<^verbatim>\<open>toggle_shuffle\<close> it is
  \<^verbatim>\<open>current_data and s == current_data\<close>, where \<^verbatim>\<open>current_data\<close> may be \<^verbatim>\<open>None\<close>.
\<close>

fun load_view :: "'a list \<Rightarrow> 'a option \<Rightarrow> 'a dll \<Rightarrow> nat option \<Rightarrow> ('a dll \<times> nat option) option" where
  "load_view [] wanted q node = Some (q, node)"
| "load_view (s # view) wanted q node =
     (case append_dll s q of
        None \<Rightarrow> None
      | Some q' \<Rightarrow> load_view view wanted q' (if wanted = Some s then tail q' else node))"

definition play_specific_song :: "(nat \<Rightarrow> nat) \<Rightarrow> reply list \<Rightarrow> song \<Rightarrow> app \<Rightarrow> app option" where
  "play_specific_song draw rs sng a =
     (case load_view (current_view_songs a) (Some sng) (clear (queue a)) None of
        None \<Rightarrow> None
      | Some (q, start_node) \<Rightarrow>
          (let q1 = q\<lparr>current := start_node\<rparr>
           in if is_shuffled a
              then (case shuffle draw q1 of
                      None \<Rightarrow> None
                    | Some q2 \<Rightarrow> play_current rs (a\<lparr>queue := q2\<rparr>))
              else play_current rs (a\<lparr>queue := q1\<rparr>)))"

definition toggle_shuffle :: "(nat \<Rightarrow> nat) \<Rightarrow> app \<Rightarrow> app option" where
  "toggle_shuffle draw a =
     (let a1 = a\<lparr>is_shuffled := \<not> is_shuffled a\<rparr>
      in if is_shuffled a1
         then (case shuffle draw (queue a1) of
                 None \<Rightarrow> None
               | Some q \<Rightarrow> Some (a1\<lparr>queue := q\<rparr>))
         else
           (let current_data = (case current (queue a1) of
                                  None \<Rightarrow> None
                                | Some c \<Rightarrow> Some (data (store (queue a1) ! c)))
            in case load_view (current_view_songs a1) current_data (clear (queue a1)) None of
                 None \<Rightarrow> None
               | Some (q, target_node) \<Rightarrow> Some (a1\<lparr>queue := q\<lparr>current := target_node\<rparr>\<rparr>)))"

subsection \<open>HarmoniaApp: the play button and the queue view\<close>

text \<open>
  \<^verbatim>\<open>toggle_play\<close>. \<open>sel\<close> is the title and the artist of the row selected in the tree, if
  one is; \<open>pos\<close> says that \<^verbatim>\<open>music.get_pos()\<close> returned a position other than \<open>-1\<close>;
  \<open>busy1\<close> and \<open>busy2\<close> are the answers of \<^verbatim>\<open>music.get_busy()\<close> after \<^verbatim>\<open>unpause\<close> and in
  \<^verbatim>\<open>check_music_end\<close>.
\<close>

definition toggle_play ::
  "(string \<times> string) option \<Rightarrow> bool \<Rightarrow> bool \<Rightarrow> bool \<Rightarrow> (nat \<Rightarrow> nat) \<Rightarrow> reply list \<Rightarrow> app \<Rightarrow> app option"
where
  "toggle_play sel pos busy1 busy2 draw rs a =
     (if \<not> has_deps a then Some a
      else
        (let selected_song =
               (case sel of
                  None \<Rightarrow> None
                | Some (t, ar) \<Rightarrow>
                    List.find (\<lambda>s. title s = t \<and> artist s = ar) (current_view_songs a))
         in if selected_song \<noteq> None
               \<and> (current (queue a) = None
                  \<or> Some (data (store (queue a) ! the (current (queue a)))) \<noteq> selected_song)
            then play_specific_song draw rs (the selected_song) a
            else if is_playing a
            then Some (a\<lparr>mixer := mixer a @ [Pause], is_playing := False, btn_play := Play_icon\<rparr>)
            else if current (queue a) \<noteq> None \<and> pos
            then (let a1 = a\<lparr>mixer := mixer a @ [Unpause]\<rparr>;
                      a2 = (if \<not> busy1 then a1\<lparr>mixer := mixer a1 @ [Play]\<rparr> else a1)
                  in check_music_end busy2 rs (a2\<lparr>is_playing := True, btn_play := Pause_icon\<rparr>))
            else if current_view_songs a \<noteq> []
            then play_specific_song draw rs (current_view_songs a ! 0) a
            else Some a))"

text \<open>
  \<^verbatim>\<open>show_queue\<close> collects the songs of the queue into the view. Setting the search box
  runs \<^verbatim>\<open>filter_songs\<close> in a Tk callback, whose effect on the view \<^verbatim>\<open>show_queue\<close> then
  overwrites.
\<close>

definition show_queue :: "app \<Rightarrow> app option" where
  "show_queue a =
     (case songs_of (queue a) of
        None \<Rightarrow> None
      | Some songs \<Rightarrow> Some (a\<lparr>active_playlist_name := ''Queue'', current_view_songs := songs\<rparr>))"

text \<open>
  \<^verbatim>\<open>remove_from_queue_ui\<close>. \<^verbatim>\<open>pygame.mixer.music.stop()\<close> raises \<^verbatim>\<open>NameError\<close> when
  \<^verbatim>\<open>pygame\<close> could not be imported.
\<close>

definition remove_from_queue_ui :: "int \<Rightarrow> app \<Rightarrow> app option" where
  "remove_from_queue_ui index a =
     (case get_node_at_index index (queue a) of
        None \<Rightarrow> None
      | Some None \<Rightarrow> Some a
      | Some (Some n) \<Rightarrow>
          (let is_current = (Some n = current (queue a));
               a1 = a\<lparr>queue := remove_node (Some n) (queue a)\<rparr>
           in if is_current \<and> is_playing a1
              then (if \<not> has_deps a1 then None
                    else show_queue
                           (a1\<lparr>mixer := mixer a1 @ [Stop], is_playing := False,
                                btn_play := Play_icon, lbl_now_title := ''Not Playing'',
                                lbl_now_artist := [], lbl_total_time := Zero_label,
                                current_time := 0\<rparr>))
              else show_queue a1))"

subsection \<open>The structural invariants of the queue\<close>

text \<open>
  \<open>dll_inv\<close> is the valid doubly linked chain of the specification, checked on the nodes
  that the traversal from \<^verbatim>\<open>head\<close> visits: every reference is to an allocated node,
  \<^verbatim>\<open>head.prev\<close> is \<^verbatim>\<open>None\<close>, \<^verbatim>\<open>tail\<close> is the last node of the chain (and is \<^verbatim>\<open>None\<close> exactly
  when \<^verbatim>\<open>head\<close> is) with \<^verbatim>\<open>tail.next\<close> \<^verbatim>\<open>None\<close>, \<^verbatim>\<open>node.next.prev\<close> is \<^verbatim>\<open>node\<close> wherever
  \<^verbatim>\<open>node.next\<close> is set and \<^verbatim>\<open>node.prev.next\<close> is \<^verbatim>\<open>node\<close> wherever \<^verbatim>\<open>node.prev\<close> is set,
  \<^verbatim>\<open>size\<close> is the number of nodes reachable from \<^verbatim>\<open>head\<close>, and \<^verbatim>\<open>current\<close> is \<^verbatim>\<open>None\<close> or one
  of them.
\<close>

definition dll_inv :: "'a dll \<Rightarrow> bool" where
  "dll_inv q =
     (case nodes_of q of
        None \<Rightarrow> False
      | Some ns \<Rightarrow>
          (\<forall>a \<in> set ns. a < length (store q))
          \<and> (case head q of None \<Rightarrow> True | Some h \<Rightarrow> prev (store q ! h) = None)
          \<and> (case tail q of
                None \<Rightarrow> head q = None
              | Some t \<Rightarrow> ns \<noteq> [] \<and> t = last ns \<and> next (store q ! t) = None)
          \<and> (\<forall>a \<in> set ns. case next (store q ! a) of
                              None \<Rightarrow> True
                            | Some b \<Rightarrow> prev (store q ! b) = Some a)
          \<and> (\<forall>a \<in> set ns. case prev (store q ! a) of
                              None \<Rightarrow> True
                            | Some b \<Rightarrow> next (store q ! b) = Some a)
          \<and> size_dll q = int (length ns)
          \<and> (case current q of None \<Rightarrow> True | Some c \<Rightarrow> c \<in> set ns))"

text \<open>
  The same chain, stated on a given list of nodes: \<open>chain st ns\<close> says that the links
  of the nodes \<open>ns\<close> are those of the list \<open>ns\<close>, and \<open>rep q ns\<close> that the queue \<open>q\<close> is the
  chain \<open>ns\<close>.
\<close>

definition chain :: "'a node list \<Rightarrow> nat list \<Rightarrow> bool" where
  "chain st ns \<longleftrightarrow>
     distinct ns \<and> (\<forall>a \<in> set ns. a < length st)
     \<and> (\<forall>i < length ns.
           next (st ! (ns ! i)) = (if Suc i < length ns then Some (ns ! Suc i) else None)
         \<and> prev (st ! (ns ! i)) = (if i = 0 then None else Some (ns ! (i - 1))))"

definition rep :: "'a dll \<Rightarrow> nat list \<Rightarrow> bool" where
  "rep q ns \<longleftrightarrow>
     chain (store q) ns
     \<and> head q = (if ns = [] then None else Some (hd ns))
     \<and> tail q = (if ns = [] then None else Some (last ns))
     \<and> size_dll q = int (length ns)
     \<and> (\<forall>c. current q = Some c \<longrightarrow> c \<in> set ns)"

subsection \<open>Example states\<close>

text \<open>
  The queue of three songs \<open>A\<close>, \<open>B\<close>, \<open>C\<close> in this order, with \<open>B\<close> current, and
  the application playing it from an empty history.
\<close>

definition song_A :: song where
  "song_A = \<lparr>ident = 1, title = ''A'', artist = ''X'', path = Some ''a.mp3''\<rparr>"

definition song_B :: song where
  "song_B = \<lparr>ident = 2, title = ''B'', artist = ''Y'', path = Some ''b.mp3''\<rparr>"

definition song_C :: song where
  "song_C = \<lparr>ident = 3, title = ''C'', artist = ''Z'', path = Some ''c.mp3''\<rparr>"

definition queue_ABC :: "song dll" where
  "queue_ABC =
     \<lparr>store = [\<lparr>data = song_A, next = Some 1, prev = None\<rparr>,
               \<lparr>data = song_B, next = Some 2, prev = Some 0\<rparr>,
               \<lparr>data = song_C, next = None, prev = Some 1\<rparr>],
      head = Some 0, tail = Some 2, current = Some 1, size_dll = 3\<rparr>"

definition app_ABC :: app where
  "app_ABC =
     \<lparr>queue = queue_ABC, history = Stack, current_view_songs = [song_A, song_B, song_C],
      active_playlist_name = ''Library'', is_looping = False, is_shuffled = False,
      is_playing = True, song_length = 180, start_time = 0, current_time = 0,
      has_deps = True, mixer = [Load (Some ''b.mp3''), Play], btn_play = Pause_icon,
      lbl_now_title = ''B'', lbl_now_artist = ''Y'', lbl_total_time = Formatted 180\<rparr>"

text \<open>
  The same application with the last song \<open>C\<close> current; paused on \<open>B\<close> (the state that
  \<^verbatim>\<open>toggle_play\<close> leaves when it pauses \<open>app_ABC\<close>); and just started, with an empty
  queue, nothing playing, and a view of one song or of none. \<open>reply_ok\<close> is a backend
  that loads and plays the track and is busy playing it.
\<close>

definition app_at_C :: app where
  "app_at_C =
     app_ABC\<lparr>queue := queue_ABC\<lparr>current := Some 2\<rparr>,
             mixer := [Load (Some ''c.mp3''), Play],
             lbl_now_title := ''C'', lbl_now_artist := ''Z''\<rparr>"

definition app_paused :: app where
  "app_paused =
     app_ABC\<lparr>mixer := [Load (Some ''b.mp3''), Play, Pause], is_playing := False,
             btn_play := Play_icon\<rparr>"

definition app_started :: app where
  "app_started =
     \<lparr>queue = DoublyLinkedList, history = Stack, current_view_songs = [song_A],
      active_playlist_name = ''Library'', is_looping = False, is_shuffled = False,
      is_playing = False, song_length = 0, start_time = 0, current_time = 0,
      has_deps = True, mixer = [], btn_play = Play_icon,
      lbl_now_title = ''Not Playing'', lbl_now_artist = [], lbl_total_time = Zero_label\<rparr>"

definition app_no_songs :: app where
  "app_no_songs = app_started\<lparr>current_view_songs := []\<rparr>"

definition reply_ok :: reply where
  "reply_ok = \<lparr>sound_length = Some 180, load_ok = True, play_ok = True, busy = True\<rparr>"

text \<open>
  The queue that \<^verbatim>\<open>shuffle\<close> makes of \<open>queue_ABC\<close> when every draw is 0: the order is
  \<open>B\<close>, \<open>C\<close>, \<open>A\<close>; the application in shuffle mode with this queue; and the application
  just started where \<^verbatim>\<open>pygame\<close> could not be imported.
\<close>

definition queue_BCA :: "song dll" where
  "queue_BCA =
     \<lparr>store = [\<lparr>data = song_A, next = None, prev = Some 2\<rparr>,
               \<lparr>data = song_B, next = Some 2, prev = None\<rparr>,
               \<lparr>data = song_C, next = Some 0, prev = Some 1\<rparr>],
      head = Some 1, tail = Some 0, current = Some 1, size_dll = 3\<rparr>"

definition app_shuffled :: app where
  "app_shuffled = app_ABC\<lparr>is_shuffled := True, queue := queue_BCA\<rparr>"

definition app_no_pygame :: app where
  "app_no_pygame = app_started\<lparr>has_deps := False\<rparr>"

subsection \<open>Properties of the stack\<close>

lemma run_ops_unpopped: "length (items (run_ops ops s)) = unpopped ops (length (items s))"
proof (induction ops arbitrary: s)
  case Nil
  show ?case by simp
next
  case (Cons op ops)
  show ?case
  proof (cases op)
    case (Push x)
    with Cons show ?thesis by (simp add: push_def)
  next
    case Pop
    with Cons show ?thesis by (simp add: pop_def is_empty_stack_def)
  qed
qed

text \<open>
  Claim C7. The history stack is strictly last-in first-out: after pushing \<open>A\<close> and then
  \<open>B\<close>, the first pop returns \<open>B\<close>, the second returns \<open>A\<close>, and the stack is back where it
  started. A pop of the empty stack returns \<^verbatim>\<open>None\<close> and leaves the stack as it was.
  After any sequence of pushes and pops from the empty stack, \<^verbatim>\<open>is_empty_stack\<close> holds exactly
  when no pushed item remains unpopped.
\<close>

theorem stack_lifo:
  "pop (push B (push A s)) = (Some B, push A s)
   \<and> pop (push A s) = (Some A, s)
   \<and> pop Stack = (None, Stack)
   \<and> is_empty_stack (run_ops ops Stack) = (unpopped ops 0 = 0)"
proof -
  have "is_empty_stack (run_ops ops Stack) = (unpopped ops 0 = 0)"
    using run_ops_unpopped [of ops Stack] by (simp add: is_empty_stack_def Stack_def)
  then show ?thesis
    by (simp add: pop_def push_def is_empty_stack_def Stack_def butlast_append)
qed

subsection \<open>The traversal\<close>

lemma traverse_length: "traverse n st p = Some ns \<Longrightarrow> length ns \<le> n"
  by (induction n st p arbitrary: ns rule: traverse.induct) auto

lemma traverse_mono: "traverse n st p = Some ns \<Longrightarrow> n \<le> m \<Longrightarrow> traverse m st p = Some ns"
proof (induction n st p arbitrary: ns m rule: traverse.induct)
  case (1 fuel st)
  then show ?case by simp
next
  case (2 st a)
  then show ?case by simp
next
  case (3 fuel st a)
  from "3.prems"(2) obtain m' where m: "m = Suc m'" "fuel \<le> m'" by (cases m) auto
  from "3.prems"(1) obtain ns' where ns: "ns = a # ns'"
    and t: "traverse fuel st (next (st ! a)) = Some ns'" by auto
  from "3.IH" [OF t m(2)] show ?case by (simp add: m ns)
qed

lemma traverse_links:
  "traverse n st p = Some ns \<Longrightarrow>
     p = (if ns = [] then None else Some (hd ns))
     \<and> (\<forall>i < length ns. next (st ! (ns ! i)) = (if Suc i < length ns then Some (ns ! Suc i) else None))"
proof (induction n st p arbitrary: ns rule: traverse.induct)
  case (1 fuel st)
  then show ?case by simp
next
  case (2 st a)
  then show ?case by simp
next
  case (3 fuel st a)
  from "3.prems"(1) obtain ns' where ns: "ns = a # ns'"
    and t: "traverse fuel st (next (st ! a)) = Some ns'"
    by auto
  from "3.IH" [OF t] have h: "next (st ! a) = (if ns' = [] then None else Some (hd ns'))"
    and l: "\<forall>i < length ns'. next (st ! (ns' ! i)) = (if Suc i < length ns' then Some (ns' ! Suc i) else None)"
    by auto
  show ?case
  proof (intro conjI allI impI)
    show "Some a = (if ns = [] then None else Some (hd ns))" by (simp add: ns)
  next
    fix i assume "i < length ns"
    show "next (st ! (ns ! i)) = (if Suc i < length ns then Some (ns ! Suc i) else None)"
    proof (cases i)
      case 0
      with h show ?thesis by (simp add: ns hd_conv_nth)
    next
      case (Suc j)
      with l \<open>i < length ns\<close> show ?thesis by (simp add: ns)
    qed
  qed
qed

lemma traverse_drop:
  "traverse n st p = Some ns \<Longrightarrow> i < length ns \<Longrightarrow>
     traverse (n - i) st (Some (ns ! i)) = Some (drop i ns)"
proof (induction n st p arbitrary: ns i rule: traverse.induct)
  case (1 fuel st)
  then show ?case by simp
next
  case (2 st a)
  then show ?case by simp
next
  case (3 fuel st a)
  from "3.prems"(1) obtain ns' where ns: "ns = a # ns'"
    and t: "traverse fuel st (next (st ! a)) = Some ns'"
    by auto
  show ?case
  proof (cases i)
    case 0
    with "3.prems" show ?thesis by (simp add: ns)
  next
    case (Suc j)
    with "3.prems" have "j < length ns'" by (simp add: ns)
    from "3.IH" [OF t this] show ?thesis by (simp add: ns Suc)
  qed
qed

lemma traverse_distinct:
  assumes "traverse n st p = Some ns"
  shows "distinct ns"
proof -
  have "i = j" if ij: "i \<le> j" "j < length ns" "ns ! i = ns ! j" for i j
  proof -
    have a: "traverse (n - i) st (Some (ns ! i)) = Some (drop i ns)"
      using traverse_drop [OF assms, of i] ij by simp
    have "traverse (n - j) st (Some (ns ! j)) = Some (drop j ns)"
      using traverse_drop [OF assms, of j] ij by simp
    then have "traverse (n - i) st (Some (ns ! j)) = Some (drop j ns)"
      by (rule traverse_mono) (use ij in simp)
    with a ij have "drop i ns = drop j ns" by simp
    then have "length (drop i ns) = length (drop j ns)" by simp
    with ij show ?thesis by simp
  qed
  note key = this
  show ?thesis
    unfolding distinct_conv_nth
  proof (intro allI impI)
    fix i j assume b: "i < length ns" "j < length ns" "i \<noteq> j"
    show "ns ! i \<noteq> ns ! j"
    proof
      assume e: "ns ! i = ns ! j"
      show False
      proof (cases "i \<le> j")
        case True
        from key [OF True b(2) e] b(3) show False by simp
      next
        case False
        then have "j \<le> i" by simp
        from key [OF this b(1) e [symmetric]] b(3) show False by simp
      qed
    qed
  qed
qed

lemma traverse_intro:
  "(\<forall>i < length ns. next (st ! (ns ! i)) = (if Suc i < length ns then Some (ns ! Suc i) else None))
   \<Longrightarrow> length ns \<le> n
   \<Longrightarrow> traverse n st (if ns = [] then None else Some (hd ns)) = Some ns"
proof (induction ns arbitrary: n)
  case Nil
  show ?case by simp
next
  case (Cons a ns)
  then obtain m where n: "n = Suc m" "length ns \<le> m" by (cases n) auto
  have l: "\<forall>i < length ns. next (st ! (ns ! i)) = (if Suc i < length ns then Some (ns ! Suc i) else None)"
  proof (intro allI impI)
    fix i assume "i < length ns"
    with Cons.prems(1) [rule_format, of "Suc i"] 
    show "next (st ! (ns ! i)) = (if Suc i < length ns then Some (ns ! Suc i) else None)"
      by simp
  qed
  have h: "next (st ! a) = (if ns = [] then None else Some (hd ns))"
    using Cons.prems(1) [rule_format, of 0] by (simp add: hd_conv_nth)
  from Cons.IH [OF l n(2)] h show ?case by (simp add: n)
qed

lemma bounded_distinct_length:
  "distinct ns \<Longrightarrow> \<forall>a \<in> set ns. a < (k::nat) \<Longrightarrow> length ns \<le> k"
proof -
  assume d: "distinct ns" and b: "\<forall>a \<in> set ns. a < k"
  have "card (set ns) \<le> card {..<k}" by (rule card_mono) (use b in auto)
  with d show ?thesis by (simp add: distinct_card)
qed

lemma traverse_valid:
  "traverse n st p = Some ns \<Longrightarrow> (\<forall>a. p = Some a \<longrightarrow> a < length st)
   \<Longrightarrow> (\<forall>a < length st. \<forall>b. next (st ! a) = Some b \<longrightarrow> b < length st)
   \<Longrightarrow> \<forall>a \<in> set ns. a < length st"
  by (induction n st p arbitrary: ns rule: traverse.induct) auto

lemma traverse_fuel_enough:
  assumes "traverse n st p = Some ns"
    and "\<forall>a. p = Some a \<longrightarrow> a < length st"
    and "\<forall>a < length st. \<forall>b. next (st ! a) = Some b \<longrightarrow> b < length st"
  shows "traverse (length st) st p = Some ns"
proof -
  have "length ns \<le> length st"
    using traverse_distinct [OF assms(1)] traverse_valid [OF assms] by (rule bounded_distinct_length)
  with traverse_links [OF assms(1)] traverse_intro [of ns st "length st"]
  show ?thesis by simp
qed

subsection \<open>The invariant and the chain it describes\<close>

lemma chain_nextD:
  "chain st ns \<Longrightarrow> i < length ns \<Longrightarrow>
     next (st ! (ns ! i)) = (if Suc i < length ns then Some (ns ! Suc i) else None)"
  by (simp add: chain_def)

lemma chain_prevD:
  "chain st ns \<Longrightarrow> i < length ns \<Longrightarrow>
     prev (st ! (ns ! i)) = (if i = 0 then None else Some (ns ! (i - 1)))"
  by (simp add: chain_def)

lemma chain_distinct: "chain st ns \<Longrightarrow> distinct ns"
  by (simp add: chain_def)

lemma chain_valid: "chain st ns \<Longrightarrow> a \<in> set ns \<Longrightarrow> a < length st"
  by (simp add: chain_def)

lemma chain_traverse:
  assumes "chain st ns"
  shows "traverse (length st) st (if ns = [] then None else Some (hd ns)) = Some ns"
proof (rule traverse_intro)
  show "\<forall>i<length ns. next (st ! (ns ! i)) = (if Suc i < length ns then Some (ns ! Suc i) else None)"
    using assms by (simp add: chain_def)
  show "length ns \<le> length st"
    using assms by (intro bounded_distinct_length) (simp_all add: chain_def)
qed

lemma rep_nodes_of: "rep q ns \<Longrightarrow> nodes_of q = Some ns"
  using chain_traverse [of "store q" ns] by (simp add: rep_def nodes_of_def)

lemma rep_imp_inv:
  assumes r: "rep q ns"
  shows "dll_inv q"
proof -
  let ?st = "store q"
  from r have c: "chain ?st ns" by (simp add: rep_def)
  have v: "\<forall>a \<in> set ns. a < length ?st" using c by (simp add: chain_def)
  have h: "case head q of None \<Rightarrow> True | Some h \<Rightarrow> prev (?st ! h) = None"
  proof (cases ns)
    case Nil
    with r show ?thesis by (simp add: rep_def)
  next
    case (Cons a as)
    with chain_prevD [OF c, of 0] r show ?thesis by (simp add: rep_def)
  qed
  have t: "case tail q of None \<Rightarrow> head q = None
           | Some t \<Rightarrow> ns \<noteq> [] \<and> t = last ns \<and> next (?st ! t) = None"
  proof (cases "ns = []")
    case True
    with r show ?thesis by (simp add: rep_def)
  next
    case False
    with chain_nextD [OF c, of "length ns - 1"] r show ?thesis
      by (simp add: rep_def last_conv_nth)
  qed
  have n: "\<forall>a \<in> set ns. case next (?st ! a) of None \<Rightarrow> True | Some b \<Rightarrow> prev (?st ! b) = Some a"
  proof
    fix a assume "a \<in> set ns"
    then obtain i where i: "i < length ns" "a = ns ! i" by (auto simp: in_set_conv_nth)
    show "case next (?st ! a) of None \<Rightarrow> True | Some b \<Rightarrow> prev (?st ! b) = Some a"
    proof (cases "Suc i < length ns")
      case True
      with chain_nextD [OF c i(1)] chain_prevD [OF c True] i show ?thesis by simp
    next
      case False
      with chain_nextD [OF c i(1)] i show ?thesis by simp
    qed
  qed
  have p: "\<forall>a \<in> set ns. case prev (?st ! a) of None \<Rightarrow> True | Some b \<Rightarrow> next (?st ! b) = Some a"
  proof
    fix a assume "a \<in> set ns"
    then obtain i where i: "i < length ns" "a = ns ! i" by (auto simp: in_set_conv_nth)
    show "case prev (?st ! a) of None \<Rightarrow> True | Some b \<Rightarrow> next (?st ! b) = Some a"
    proof (cases i)
      case 0
      with chain_prevD [OF c i(1)] i show ?thesis by simp
    next
      case (Suc j)
      with i have "j < length ns" by simp
      from chain_nextD [OF c this] chain_prevD [OF c i(1)] i Suc show ?thesis by simp
    qed
  qed
  have s: "size_dll q = int (length ns)" using r by (simp add: rep_def)
  have cu: "case current q of None \<Rightarrow> True | Some c \<Rightarrow> c \<in> set ns"
    using r by (simp add: rep_def split: option.splits)
  from v h t n p s cu show ?thesis
    by (simp add: dll_inv_def rep_nodes_of [OF r])
qed

lemma inv_imp_rep:
  assumes i: "dll_inv q" and ns: "nodes_of q = Some ns"
  shows "rep q ns"
proof -
  let ?st = "store q"
  from i ns have v: "\<forall>a \<in> set ns. a < length ?st"
    and h: "case head q of None \<Rightarrow> True | Some h \<Rightarrow> prev (?st ! h) = None"
    and t: "case tail q of None \<Rightarrow> head q = None
           | Some t \<Rightarrow> ns \<noteq> [] \<and> t = last ns \<and> next (?st ! t) = None"
    and n: "\<forall>a \<in> set ns. case next (?st ! a) of None \<Rightarrow> True | Some b \<Rightarrow> prev (?st ! b) = Some a"
    and s: "size_dll q = int (length ns)"
    and cu: "case current q of None \<Rightarrow> True | Some c \<Rightarrow> c \<in> set ns"
    by (simp_all add: dll_inv_def)
  from ns have tr: "traverse (length ?st) ?st (head q) = Some ns" by (simp add: nodes_of_def)
  note l = traverse_links [OF tr]
  from l have hd: "head q = (if ns = [] then None else Some (hd ns))" by simp
  from l have nx: "\<And>i. i < length ns \<Longrightarrow>
      next (?st ! (ns ! i)) = (if Suc i < length ns then Some (ns ! Suc i) else None)" by simp
  have pv: "prev (?st ! (ns ! i)) = (if i = 0 then None else Some (ns ! (i - 1)))"
    if "i < length ns" for i
  proof (cases i)
    case 0
    with that hd h show ?thesis by (simp add: hd_conv_nth)
  next
    case (Suc j)
    with that have j: "j < length ns" by simp
    then have "ns ! j \<in> set ns" by simp
    with n have "case next (?st ! (ns ! j)) of None \<Rightarrow> True | Some b \<Rightarrow> prev (?st ! b) = Some (ns ! j)"
      by blast
    with nx [OF j] that Suc show ?thesis by simp
  qed
  have c: "chain ?st ns"
    using traverse_distinct [OF tr] v nx pv by (simp add: chain_def)
  have tl: "tail q = (if ns = [] then None else Some (last ns))"
    using t hd by (cases "tail q") (auto split: if_splits)
  from c hd tl s cu show ?thesis by (auto simp: rep_def)
qed

lemma inv_rep_ex: "dll_inv q \<Longrightarrow> \<exists>ns. nodes_of q = Some ns \<and> rep q ns"
proof -
  assume i: "dll_inv q"
  then obtain ns where "nodes_of q = Some ns" by (cases "nodes_of q") (simp_all add: dll_inv_def)
  with inv_imp_rep [OF i this] show ?thesis by blast
qed

subsection \<open>Assigning links; append\<close>

lemma length_set_next [simp]: "length (set_next a v st) = length st"
  by (simp add: set_next_def)

lemma length_set_prev [simp]: "length (set_prev a v st) = length st"
  by (simp add: set_prev_def)

lemma data_set_next [simp]: "data (set_next a v st ! b) = data (st ! b)"
  by (cases "a < length st") (simp_all add: set_next_def nth_list_update list_update_beyond)

lemma data_set_prev [simp]: "data (set_prev a v st ! b) = data (st ! b)"
  by (cases "a < length st") (simp_all add: set_prev_def nth_list_update list_update_beyond)

lemma prev_set_next [simp]: "prev (set_next a v st ! b) = prev (st ! b)"
  by (cases "a < length st") (simp_all add: set_next_def nth_list_update list_update_beyond)

lemma next_set_prev [simp]: "next (set_prev a v st ! b) = next (st ! b)"
  by (cases "a < length st") (simp_all add: set_prev_def nth_list_update list_update_beyond)

lemma next_set_next [simp]:
  "a < length st \<Longrightarrow> next (set_next a v st ! b) = (if b = a then v else next (st ! b))"
  by (simp add: set_next_def nth_list_update)

lemma prev_set_prev [simp]:
  "a < length st \<Longrightarrow> prev (set_prev a v st ! b) = (if b = a then v else prev (st ! b))"
  by (simp add: set_prev_def nth_list_update)

lemma chainI:
  assumes "distinct ns" and "\<And>a. a \<in> set ns \<Longrightarrow> a < length st"
    and "\<And>i. i < length ns \<Longrightarrow>
           next (st ! (ns ! i)) = (if Suc i < length ns then Some (ns ! Suc i) else None)"
    and "\<And>i. i < length ns \<Longrightarrow>
           prev (st ! (ns ! i)) = (if i = 0 then None else Some (ns ! (i - 1)))"
  shows "chain st ns"
  using assms by (simp add: chain_def)

lemma append_rep:
  assumes r: "rep q ns"
  shows "\<exists>q'. append_dll d q = Some q'
           \<and> rep q' (ns @ [length (store q)])
           \<and> length (store q') = Suc (length (store q))
           \<and> data (store q' ! length (store q)) = d
           \<and> (\<forall>a < length (store q). data (store q' ! a) = data (store q ! a))
           \<and> current q' = (if ns = [] then Some (length (store q)) else current q)"
proof (cases "ns = []")
  case True
  with r have h: "head q = None" by (simp add: rep_def)
  let ?new = "length (store q)"
  let ?q = "q\<lparr>store := store q @ [Node d], head := Some ?new, tail := Some ?new,
               current := Some ?new, size_dll := size_dll q + 1\<rparr>"
  have a: "append_dll d q = Some ?q" using h by (simp add: append_dll_def Let_def)
  have "chain (store q @ [Node d]) [?new]"
    by (rule chainI) (simp_all add: Node_def)
  with r True have "rep ?q (ns @ [?new])" by (simp add: rep_def)
  with a True show ?thesis by (simp add: Node_def nth_append)
next
  case False
  let ?st = "store q"
  let ?new = "length ?st"
  let ?t = "last ns"
  from r False have h: "head q = Some (hd ns)" and t: "tail q = Some ?t"
    and c: "chain ?st ns" and s: "size_dll q = int (length ns)"
    and cu: "\<forall>c. current q = Some c \<longrightarrow> c \<in> set ns"
    by (simp_all add: rep_def)
  let ?st' = "set_next ?t (Some ?new) (set_prev ?new (Some ?t) (?st @ [Node d]))"
  let ?q = "q\<lparr>store := ?st', tail := Some ?new, size_dll := size_dll q + 1\<rparr>"
  have a: "append_dll d q = Some ?q" using h t by (simp add: append_dll_def Let_def)
  have v: "a < ?new" if "a \<in> set ns" for a using chain_valid [OF c that] .
  have tv: "?t < ?new" using False by (intro v) simp
  have tl: "?t = ns ! (length ns - 1)" using False by (simp add: last_conv_nth)
  have d: "distinct ns" using c by (rule chain_distinct)
  have nn: "?new \<notin> set ns" using v by blast
  have c': "chain ?st' (ns @ [?new])"
  proof (rule chainI)
    show "distinct (ns @ [?new])" using d nn by simp
  next
    fix a assume "a \<in> set (ns @ [?new])"
    then show "a < length ?st'" using v by (auto intro: less_SucI)
  next
    fix i assume i: "i < length (ns @ [?new])"
    show "next (?st' ! ((ns @ [?new]) ! i))
          = (if Suc i < length (ns @ [?new]) then Some ((ns @ [?new]) ! Suc i) else None)"
    proof (cases "i < length ns")
      case True
      then have b: "ns ! i < ?new" by (intro v) simp
      have e: "(ns ! i = ?t) = (i = length ns - 1)"
        unfolding tl using d True False by (simp add: nth_eq_iff_index_eq)
      show ?thesis
        using True b e tv chain_nextD [OF c True] by (auto simp: nth_append)
    next
      case False
      with i have "i = length ns" by simp
      then show ?thesis using tv by (simp add: nth_append Node_def)
    qed
  next
    fix i assume i: "i < length (ns @ [?new])"
    show "prev (?st' ! ((ns @ [?new]) ! i)) = (if i = 0 then None else Some ((ns @ [?new]) ! (i - 1)))"
    proof (cases "i < length ns")
      case True
      then have b: "ns ! i < ?new" by (intro v) simp
      show ?thesis
        using True b chain_prevD [OF c True] by (auto simp: nth_append)
    next
      case F: False
      with i have "i = length ns" by simp
      then show ?thesis using False tl by (simp add: nth_append)
    qed
  qed
  from c' s cu h False have "rep ?q (ns @ [?new])" by (auto simp: rep_def)
  with a False show ?thesis by (auto simp: nth_append Node_def)
qed

subsection \<open>remove_node\<close>

lemma remove_node_fields:
  assumes n: "n < length (store q)"
    and pn: "prev (store q ! n) \<noteq> Some n" and nn: "next (store q ! n) \<noteq> Some n"
    and pv: "\<forall>p. prev (store q ! n) = Some p \<longrightarrow> p < length (store q)"
    and nv: "\<forall>x. next (store q ! n) = Some x \<longrightarrow> x < length (store q)"
  shows "head (remove_node (Some n) q) = (if Some n = head q then next (store q ! n) else head q)"
    and "tail (remove_node (Some n) q) = (if Some n = tail q then prev (store q ! n) else tail q)"
    and "current (remove_node (Some n) q)
         = (if Some n = current q
            then (case next (store q ! n) of Some x \<Rightarrow> Some x | None \<Rightarrow> prev (store q ! n))
            else current q)"
    and "size_dll (remove_node (Some n) q) = size_dll q - 1"
    and "length (store (remove_node (Some n) q)) = length (store q)"
    and "data (store (remove_node (Some n) q) ! b) = data (store q ! b)"
    and "next (store (remove_node (Some n) q) ! b)
         = (if b = n then None
            else if prev (store q ! n) = Some b then next (store q ! n)
            else next (store q ! b))"
    and "prev (store (remove_node (Some n) q) ! b)
         = (if b = n then None
            else if next (store q ! n) = Some b then prev (store q ! n)
            else prev (store q ! b))"
  using assms
  by (auto simp: remove_node_def Let_def split: option.splits)


lemma nth_delete:
  "k < length ns \<Longrightarrow> i < length ns - 1 \<Longrightarrow>
     (take k ns @ drop (Suc k) ns) ! i = ns ! (if i < k then i else Suc i)"
  by (simp add: nth_append min_def)

lemma remove1_nth:
  "distinct ns \<Longrightarrow> k < length ns \<Longrightarrow> remove1 (ns ! k) ns = take k ns @ drop (Suc k) ns"
proof (induction ns arbitrary: k)
  case Nil
  then show ?case by simp
next
  case (Cons a ns)
  show ?case
  proof (cases k)
    case 0
    then show ?thesis by simp
  next
    case (Suc j)
    with Cons.prems have j: "j < length ns" and d: "distinct ns" and a: "a \<notin> set ns" by simp_all
    from j a have "a \<noteq> ns ! j" by (metis nth_mem)
    with Cons.IH [OF d j] show ?thesis by (simp add: Suc)
  qed
qed

lemma remove_rep:
  assumes r: "rep q ns" and k: "k < length ns"
  shows "rep (remove_node (Some (ns ! k)) q) (take k ns @ drop (Suc k) ns)
         \<and> current (remove_node (Some (ns ! k)) q)
             = (if Some (ns ! k) = current q
                then (case next (store q ! (ns ! k)) of
                        Some x \<Rightarrow> Some x
                      | None \<Rightarrow> prev (store q ! (ns ! k)))
                else current q)
         \<and> length (store (remove_node (Some (ns ! k)) q)) = length (store q)
         \<and> (\<forall>b. data (store (remove_node (Some (ns ! k)) q) ! b) = data (store q ! b))
         \<and> next (store (remove_node (Some (ns ! k)) q) ! (ns ! k)) = None
         \<and> prev (store (remove_node (Some (ns ! k)) q) ! (ns ! k)) = None"
proof -
  let ?st = "store q"
  let ?n = "ns ! k"
  let ?q = "remove_node (Some ?n) q"
  let ?ns = "take k ns @ drop (Suc k) ns"
  let ?f = "\<lambda>i. if i < k then i else Suc i"
  from r have c: "chain ?st ns" by (simp add: rep_def)
  have d: "distinct ns" using c by (rule chain_distinct)
  have v: "\<And>a. a \<in> set ns \<Longrightarrow> a < length ?st" using c by (rule chain_valid)
  have nx: "next (?st ! (ns ! i)) = (if Suc i < length ns then Some (ns ! Suc i) else None)"
    if "i < length ns" for i using chain_nextD [OF c that] .
  have pv: "prev (?st ! (ns ! i)) = (if i = 0 then None else Some (ns ! (i - 1)))"
    if "i < length ns" for i using chain_prevD [OF c that] .
  have eq: "(ns ! i = ns ! j) = (i = j)" if "i < length ns" "j < length ns" for i j
    using d that by (simp add: nth_eq_iff_index_eq)
  have nv: "?n < length ?st" using k by (intro v) simp
  have f1: "prev (?st ! ?n) \<noteq> Some ?n" using pv [OF k] k eq [of "k - 1" k] by auto
  have f2: "next (?st ! ?n) \<noteq> Some ?n" using nx [OF k] k eq [of "Suc k" k] by auto
  have f3: "\<forall>p. prev (?st ! ?n) = Some p \<longrightarrow> p < length ?st"
    using pv [OF k] k v [of "ns ! (k - 1)"] by auto
  have f4: "\<forall>x. next (?st ! ?n) = Some x \<longrightarrow> x < length ?st"
    using nx [OF k] k v [of "ns ! Suc k"] by auto
  note flds = remove_node_fields [OF nv f1 f2 f3 f4]
  have len: "length ?ns = length ns - 1" using k by simp
  have nth: "?ns ! i = ns ! ?f i" if "i < length ns - 1" for i
    using nth_delete [OF k that] .
  have set: "set ?ns \<subseteq> set ns"
    using set_take_subset [of k ns] set_drop_subset [of "Suc k" ns] by auto
  have c': "chain (store ?q) ?ns"
  proof (rule chainI)
    show "distinct ?ns" using d k by (metis distinct_remove1 remove1_nth)
  next
    fix a assume "a \<in> set ?ns"
    with set v show "a < length (store ?q)" by (auto simp: flds(5))
  next
    fix i assume "i < length ?ns"
    then have i: "i < length ns - 1" by (simp only: len)
    then have j: "?f i < length ns" "?f i \<noteq> k" by auto
    have a: "next (store ?q ! (ns ! ?f i))
             = (if k \<noteq> 0 \<and> ?f i = k - 1 then next (?st ! ?n) else next (?st ! (ns ! ?f i)))"
      using flds(7) [of "ns ! ?f i"] pv [OF k] eq [OF j(1) k] eq [of "k - 1" "?f i"] j k
      by auto
    show "next (store ?q ! (?ns ! i)) = (if Suc i < length ?ns then Some (?ns ! Suc i) else None)"
    proof (cases "Suc i < length ns - 1")
      case True
      then show ?thesis
        unfolding nth [OF i] nth [OF True] len a using nx [OF j(1)] nx [OF k] i k
        by auto
    next
      case False
      then show ?thesis
        unfolding nth [OF i] len a using nx [OF j(1)] nx [OF k] i k
        by auto
    qed
  next
    fix i assume "i < length ?ns"
    then have i: "i < length ns - 1" by (simp only: len)
    then have j: "?f i < length ns" "?f i \<noteq> k" by auto
    have a: "prev (store ?q ! (ns ! ?f i))
             = (if ?f i = Suc k then prev (?st ! ?n) else prev (?st ! (ns ! ?f i)))"
      using flds(8) [of "ns ! ?f i"] nx [OF k] eq [OF j(1) k] eq [of "Suc k" "?f i"] j k
      by auto
    show "prev (store ?q ! (?ns ! i)) = (if i = 0 then None else Some (?ns ! (i - 1)))"
    proof (cases i)
      case 0
      then show ?thesis
        unfolding nth [OF i] a using pv [OF j(1)] pv [OF k] i k by auto
    next
      case (Suc i')
      then have i': "i - 1 < length ns - 1" using i by simp
      show ?thesis
        unfolding nth [OF i] nth [OF i'] a using pv [OF j(1)] pv [OF k] i k Suc by auto
    qed
  qed
  have hd: "head ?q = (if ?ns = [] then None else Some (hd ?ns))"
  proof (cases "?ns = []")
    case True
    then have "length ns = 1" using k len by (metis One_nat_def Suc_pred length_0_conv length_greater_0_conv list.size(3) not_less_zero)
    with k have k0: "k = 0" by simp
    with r \<open>length ns = 1\<close> nx [OF k] show ?thesis
      unfolding flds(1) by (simp add: rep_def hd_conv_nth True)
  next
    case False
    then have l: "0 < length ns - 1" using len by (metis length_greater_0_conv)
    have h: "hd ?ns = ns ! ?f 0" using nth [OF l] False by (simp add: hd_conv_nth)
    from r k have hq: "head q = Some (ns ! 0)" by (auto simp: rep_def hd_conv_nth)
    have l0: "0 < length ns" using k by (cases ns) simp_all
    show ?thesis
      unfolding flds(1) h hq using False nx [OF k] eq [OF k l0] k l by auto
  qed
  have tl: "tail ?q = (if ?ns = [] then None else Some (last ?ns))"
  proof (cases "?ns = []")
    case True
    then have "length ns = 1" using k len by (metis One_nat_def Suc_pred length_0_conv length_greater_0_conv list.size(3) not_less_zero)
    with k have k0: "k = 0" by simp
    with r \<open>length ns = 1\<close> pv [OF k] show ?thesis
      unfolding flds(2) by (simp add: rep_def last_conv_nth True)
  next
    case False
    then have "length ns - 1 \<noteq> 0" using len by (metis length_0_conv)
    then obtain m where m: "length ns = Suc (Suc m)"
      by (cases "length ns"; cases "length ns - 1") simp_all
    have l: "m < length ns - 1" by (simp add: m)
    have h: "last ?ns = ns ! ?f m"
      using nth [OF l] last_conv_nth [OF False] len m by simp
    have ne: "ns \<noteq> []" using m by auto
    with r have "tail q = Some (last ns)" by (simp add: rep_def)
    then have tq: "tail q = Some (ns ! Suc m)"
      by (simp add: last_conv_nth [OF ne] m)
    have lm: "Suc m < length ns" by (simp add: m)
    show ?thesis
      unfolding flds(2) h tq using False pv [OF k] eq [OF k lm] k by (auto simp: m less_Suc_eq)
  qed
  have sz: "size_dll ?q = int (length ?ns)"
    using r k unfolding flds(4) len by (simp add: rep_def)
  have cu: "\<forall>c. current ?q = Some c \<longrightarrow> c \<in> set ?ns"
  proof (intro allI impI)
    fix c assume cq: "current ?q = Some c"
    have "c \<in> set ns \<and> c \<noteq> ?n"
    proof (cases "Some ?n = current q")
      case True
      from cq [unfolded flds(3)] True
      have "(case next (?st ! ?n) of Some x \<Rightarrow> Some x | None \<Rightarrow> prev (?st ! ?n)) = Some c"
        by simp
      then show ?thesis
        using nx [OF k] pv [OF k] k eq [of "Suc k" k] eq [of "k - 1" k]
        by (auto split: if_splits)
    next
      case False
      from cq [unfolded flds(3)] False have "current q = Some c" by simp
      with r False show ?thesis by (auto simp: rep_def)
    qed
    then have "c \<in> set (remove1 ?n ns)" using d by simp
    then show "c \<in> set ?ns" using remove1_nth [OF d k] by simp
  qed
  from c' hd tl sz cu have "rep ?q ?ns" unfolding rep_def by blast
  then show ?thesis using flds(3,5,6,7,8) by simp
qed

subsection \<open>swap_nodes\<close>

lemma swap_nodes_fields:
  assumes n1: "n1 < length (store q)" and n2: "n2 < length (store q)"
    and adj: "next (store q ! n1) = Some n2"
    and pv: "\<forall>p. prev (store q ! n1) = Some p \<longrightarrow> p < length (store q)"
    and nv: "\<forall>x. next (store q ! n2) = Some x \<longrightarrow> x < length (store q)"
  shows "head (swap_nodes (Some n1) (Some n2) q)
         = (case prev (store q ! n1) of None \<Rightarrow> Some n2 | Some p \<Rightarrow> head q)"
    and "tail (swap_nodes (Some n1) (Some n2) q)
         = (case next (store q ! n2) of None \<Rightarrow> Some n1 | Some x \<Rightarrow> tail q)"
    and "current (swap_nodes (Some n1) (Some n2) q) = current q"
    and "size_dll (swap_nodes (Some n1) (Some n2) q) = size_dll q"
    and "length (store (swap_nodes (Some n1) (Some n2) q)) = length (store q)"
    and "data (store (swap_nodes (Some n1) (Some n2) q) ! b) = data (store q ! b)"
    and "next (store (swap_nodes (Some n1) (Some n2) q) ! b)
         = (if b = n1 then next (store q ! n2)
            else if b = n2 then Some n1
            else if prev (store q ! n1) = Some b then Some n2
            else next (store q ! b))"
    and "prev (store (swap_nodes (Some n1) (Some n2) q) ! b)
         = (if b = n1 then Some n2
            else if b = n2 then prev (store q ! n1)
            else if next (store q ! n2) = Some b then Some n1
            else prev (store q ! b))"
  using assms
  by (auto simp: swap_nodes_def Let_def split: option.splits)

lemma swap_rep:
  assumes r: "rep q ns" and k: "Suc k < length ns"
  shows "rep (swap_nodes (Some (ns ! k)) (Some (ns ! Suc k)) q) (ns[k := ns ! Suc k, Suc k := ns ! k])"
proof -
  let ?st = "store q"
  let ?n1 = "ns ! k"
  let ?n2 = "ns ! Suc k"
  let ?q = "swap_nodes (Some ?n1) (Some ?n2) q"
  let ?ns = "ns[k := ?n2, Suc k := ?n1]"
  from r have c: "chain ?st ns" by (simp add: rep_def)
  have d: "distinct ns" using c by (rule chain_distinct)
  have v: "\<And>a. a \<in> set ns \<Longrightarrow> a < length ?st" using c by (rule chain_valid)
  have nx: "next (?st ! (ns ! i)) = (if Suc i < length ns then Some (ns ! Suc i) else None)"
    if "i < length ns" for i using chain_nextD [OF c that] .
  have pv: "prev (?st ! (ns ! i)) = (if i = 0 then None else Some (ns ! (i - 1)))"
    if "i < length ns" for i using chain_prevD [OF c that] .
  have eq: "(ns ! i = ns ! j) = (i = j)" if "i < length ns" "j < length ns" for i j
    using d that by (simp add: nth_eq_iff_index_eq)
  have k0: "k < length ns" using k by simp
  have v1: "?n1 < length ?st" using k0 by (intro v) simp
  have v2: "?n2 < length ?st" using k by (intro v) simp
  have adj: "next (?st ! ?n1) = Some ?n2" using nx [OF k0] k by simp
  have f3: "\<forall>p. prev (?st ! ?n1) = Some p \<longrightarrow> p < length ?st"
    using pv [OF k0] k0 v [of "ns ! (k - 1)"] by auto
  have f4: "\<forall>x. next (?st ! ?n2) = Some x \<longrightarrow> x < length ?st"
    using nx [OF k] v [of "ns ! Suc (Suc k)"] by auto
  note flds = swap_nodes_fields [OF v1 v2 adj f3 f4]
  have len: "length ?ns = length ns" by simp
  have nth: "?ns ! i = (if i = Suc k then ?n1 else if i = k then ?n2 else ns ! i)"
    if "i < length ns" for i
    using that k by (simp add: nth_list_update)
  have ms: "mset ?ns = mset ns" using k k0 by (simp add: mset_swap)
  have c': "chain (store ?q) ?ns"
  proof (rule chainI)
    show "distinct ?ns" using d ms by (metis mset_eq_imp_distinct_iff)
  next
    fix a assume "a \<in> set ?ns"
    then have "a \<in> set ns" using ms by (metis mset_eq_setD)
    then show "a < length (store ?q)" using v by (simp add: flds(5))
  next
    fix i assume "i < length ?ns"
    then have i: "i < length ns" by simp
    show "next (store ?q ! (?ns ! i)) = (if Suc i < length ?ns then Some (?ns ! Suc i) else None)"
    proof (cases "i = k \<or> i = Suc k")
      case True
      have n12: "?n2 \<noteq> ?n1" using eq [OF k k0] by simp
      from True show ?thesis
      proof
        assume ik: "i = k"
        have "?ns ! Suc k = ?n1" "?ns ! k = ?n2" using nth [OF k] nth [OF k0] by simp_all
        then show ?thesis
          unfolding ik len flds(7) using n12 k by simp
      next
        assume ik: "i = Suc k"
        have "?ns ! Suc k = ?n1" using nth [OF k] by simp
        moreover have "Suc (Suc k) < length ns \<Longrightarrow> ?ns ! Suc (Suc k) = ns ! Suc (Suc k)"
          using nth [of "Suc (Suc k)"] by simp
        ultimately show ?thesis
          unfolding ik len flds(7) using nx [OF k] by simp
      qed
    next
      case False
      have a: "prev (?st ! ?n1) = Some (ns ! i) \<longleftrightarrow> k \<noteq> 0 \<and> i = k - 1"
        using pv [OF k0] eq [of "k - 1" i] k0 i by auto
      from False have b: "?ns ! i = ns ! i" "ns ! i \<noteq> ?n1" "ns ! i \<noteq> ?n2"
        using nth [OF i] eq [OF i k0] eq [OF i k] by auto
      show ?thesis
      proof (cases "Suc i < length ns")
        case T: True
        show ?thesis
          unfolding len flds(7) b(1) a using b(2,3) False nx [OF i] nth [OF T] T
          by auto
      next
        case F: False
        show ?thesis
          unfolding len flds(7) b(1) a using b(2,3) False nx [OF i] F k
          by auto
      qed
    qed
  next
    fix i assume "i < length ?ns"
    then have i: "i < length ns" by simp
    show "prev (store ?q ! (?ns ! i)) = (if i = 0 then None else Some (?ns ! (i - 1)))"
    proof (cases "i = k \<or> i = Suc k")
      case True
      have n12: "?n2 \<noteq> ?n1" using eq [OF k k0] by simp
      from True show ?thesis
      proof
        assume ik: "i = k"
        have "?ns ! k = ?n2" using nth [OF k0] by simp
        moreover have "k \<noteq> 0 \<Longrightarrow> ?ns ! (k - 1) = ns ! (k - 1)"
          using nth [of "k - 1"] k0 by simp
        ultimately show ?thesis
          unfolding ik flds(8) using n12 pv [OF k0] by simp
      next
        assume ik: "i = Suc k"
        have "?ns ! Suc k = ?n1" "?ns ! k = ?n2" using nth [OF k] nth [OF k0] by simp_all
        then show ?thesis
          unfolding ik flds(8) by simp
      qed
    next
      case False
      have a: "next (?st ! ?n2) = Some (ns ! i) \<longleftrightarrow> i = Suc (Suc k)"
        using nx [OF k] eq [of "Suc (Suc k)" i] i by auto
      from False have b: "?ns ! i = ns ! i" "ns ! i \<noteq> ?n1" "ns ! i \<noteq> ?n2"
        using nth [OF i] eq [OF i k0] eq [OF i k] by auto
      have i1: "i - 1 < length ns" using i by simp
      show ?thesis
        unfolding flds(8) b(1) a using b(2,3) False pv [OF i] nth [OF i1] i
        by auto
    qed
  qed
  have ne: "ns \<noteq> []" using k by (cases ns) simp_all
  have l0: "0 < length ns" using ne by simp
  have ll: "length ns - 1 < length ns" using ne by simp
  have hd: "head ?q = (if ?ns = [] then None else Some (hd ?ns))"
  proof -
    from r ne have hq: "head q = Some (ns ! 0)" by (simp add: rep_def hd_conv_nth)
    have l: "hd ?ns = ?ns ! 0" using ne by (simp add: hd_conv_nth)
    show ?thesis
    proof (cases "k = 0")
      case True
      have "?ns ! 0 = ns ! Suc 0" using nth [OF l0] True by simp
      with True show ?thesis
        unfolding flds(1) hq l using ne pv [OF k0] by simp
    next
      case False
      then have "?ns ! 0 = ns ! 0" using nth [OF l0] by simp
      with False show ?thesis
        unfolding flds(1) hq l using ne pv [OF k0] by simp
    qed
  qed
  have tl: "tail ?q = (if ?ns = [] then None else Some (last ?ns))"
  proof -
    from r ne have tq: "tail q = Some (ns ! (length ns - 1))" by (simp add: rep_def last_conv_nth)
    have l: "last ?ns = ?ns ! (length ns - 1)" using ne by (simp add: last_conv_nth)
    show ?thesis
    proof (cases "Suc (Suc k) < length ns")
      case True
      then have "?ns ! (length ns - 1) = ns ! (length ns - 1)" using nth [OF ll] by simp
      with True show ?thesis
        unfolding flds(2) tq l using ne nx [OF k] by simp
    next
      case False
      with k have e: "length ns - 1 = Suc k" by simp
      have "?ns ! Suc k = ?n1" using nth [OF k] by simp
      with False show ?thesis
        unfolding flds(2) tq l e using ne nx [OF k] by simp
    qed
  qed
  have sz: "size_dll ?q = int (length ?ns)" using r by (simp add: flds(4) rep_def)
  have cu: "\<forall>c. current ?q = Some c \<longrightarrow> c \<in> set ?ns"
    using r mset_eq_setD [OF ms] by (simp add: flds(3) rep_def)
  from c' hd tl sz cu show ?thesis unfolding rep_def by blast
qed

subsection \<open>shuffle\<close>

lemma length_swap [simp]: "length (swap i j xs) = length xs"
  by (simp add: swap_def)

lemma mset_swap_list: "i < length xs \<Longrightarrow> j < length xs \<Longrightarrow> mset (swap i j xs) = mset xs"
  unfolding swap_def by (rule mset_swap)

lemma length_fisher_yates [simp]: "length (fisher_yates draw i xs) = length xs"
  by (induction draw i xs rule: fisher_yates.induct) simp_all

lemma mset_fisher_yates:
  "\<forall>k. draw k \<le> k \<Longrightarrow> i < length xs \<Longrightarrow> mset (fisher_yates draw i xs) = mset xs"
proof (induction draw i xs rule: fisher_yates.induct)
  case (1 draw xs)
  show ?case by simp
next
  case (2 draw i xs)
  from "2.prems" have j: "draw (Suc i) < length xs"
    by (meson le_less_trans)
  have "mset (fisher_yates draw i (swap (Suc i) (draw (Suc i)) xs))
        = mset (swap (Suc i) (draw (Suc i)) xs)"
    using "2.prems" by (intro "2.IH") simp_all
  also have "\<dots> = mset xs" using "2.prems"(2) j by (rule mset_swap_list)
  finally show ?case by simp
qed

lemma relink_step_fields:
  assumes "nodes ! k < length st"
  shows "length (relink_step nodes n st k) = length st"
    and "data (relink_step nodes n st k ! b) = data (st ! b)"
    and "next (relink_step nodes n st k ! b)
         = (if k < n - 1 \<and> b = nodes ! k then Some (nodes ! (k + 1)) else next (st ! b))"
    and "prev (relink_step nodes n st k ! b)
         = (if k > 0 \<and> b = nodes ! k then Some (nodes ! (k - 1)) else prev (st ! b))"
  using assms by (auto simp: relink_step_def Let_def)

lemma relink_fields:
  assumes d: "distinct nodes" and v: "\<forall>a \<in> set nodes. a < length st" and n: "n = length nodes"
  shows "m \<le> n \<Longrightarrow>
     length (foldl (relink_step nodes n) st [0..<m]) = length st
     \<and> (\<forall>b. data (foldl (relink_step nodes n) st [0..<m] ! b) = data (st ! b))
     \<and> (\<forall>k < n. next (foldl (relink_step nodes n) st [0..<m] ! (nodes ! k))
                  = (if k < m \<and> k < n - 1 then Some (nodes ! (k + 1)) else next (st ! (nodes ! k))))
     \<and> (\<forall>k < n. prev (foldl (relink_step nodes n) st [0..<m] ! (nodes ! k))
                  = (if k < m \<and> k > 0 then Some (nodes ! (k - 1)) else prev (st ! (nodes ! k))))"
proof (induction m)
  case 0
  show ?case by simp
next
  case (Suc m)
  let ?s = "foldl (relink_step nodes n) st [0..<m]"
  from Suc.prems have mn: "m < n" "m \<le> n" by simp_all
  note ih = Suc.IH [OF mn(2)]
  have f: "foldl (relink_step nodes n) st [0..<Suc m] = relink_step nodes n ?s m" by simp
  have vm: "nodes ! m < length ?s" using ih v mn n by simp
  note st = relink_step_fields [OF vm, of n]
  have eq: "(nodes ! k = nodes ! m) = (k = m)" if "k < n" for k
    using d that mn n by (simp add: nth_eq_iff_index_eq)
  show ?case
  proof (intro conjI allI impI)
    show "length (foldl (relink_step nodes n) st [0..<Suc m]) = length st"
      unfolding f st(1) using ih by simp
  next
    fix b show "data (foldl (relink_step nodes n) st [0..<Suc m] ! b) = data (st ! b)"
      unfolding f st(2) using ih by simp
  next
    fix k assume k: "k < n"
    from ih k have a: "next (?s ! (nodes ! k))
        = (if k < m \<and> k < n - 1 then Some (nodes ! (k + 1)) else next (st ! (nodes ! k)))"
      by blast
    show "next (foldl (relink_step nodes n) st [0..<Suc m] ! (nodes ! k))
          = (if k < Suc m \<and> k < n - 1 then Some (nodes ! (k + 1)) else next (st ! (nodes ! k)))"
      unfolding f st(3) a eq [OF k] by (auto simp: less_Suc_eq)
  next
    fix k assume k: "k < n"
    from ih k have a: "prev (?s ! (nodes ! k))
        = (if k < m \<and> k > 0 then Some (nodes ! (k - 1)) else prev (st ! (nodes ! k)))"
      by blast
    show "prev (foldl (relink_step nodes n) st [0..<Suc m] ! (nodes ! k))
          = (if k < Suc m \<and> k > 0 then Some (nodes ! (k - 1)) else prev (st ! (nodes ! k)))"
      unfolding f st(4) a eq [OF k] by (auto simp: less_Suc_eq)
  qed
qed


lemma shuffle_small: "size_dll q < 2 \<Longrightarrow> shuffle draw q = Some q"
  by (simp add: shuffle_def)

lemma shuffle_rep:
  assumes r: "rep q ns" and dr: "\<forall>k. draw k \<le> k" and l: "2 \<le> length ns"
  shows "\<exists>q'. shuffle draw q = Some q'
           \<and> rep q' (fisher_yates draw (length ns - 1) ns)
           \<and> current q' = current q \<and> size_dll q' = size_dll q
           \<and> length (store q') = length (store q)
           \<and> (\<forall>b. data (store q' ! b) = data (store q ! b))"
proof -
  let ?st = "store q"
  let ?n = "length ns"
  let ?ps = "fisher_yates draw (?n - 1) ns"
  let ?st4 = "set_next (last ?ps) None (set_prev (?ps ! 0) None ?st)"
  let ?st' = "foldl (relink_step ?ps ?n) ?st4 [0..<?n]"
  let ?q = "q\<lparr>head := Some (?ps ! 0), tail := Some (last ?ps), store := ?st'\<rparr>"
  from r have c: "chain ?st ns" and sz: "size_dll q = int ?n"
    and cu: "\<forall>c. current q = Some c \<longrightarrow> c \<in> set ns" by (simp_all add: rep_def)
  have ms: "mset ?ps = mset ns" using dr l by (intro mset_fisher_yates) simp_all
  have lp: "length ?ps = ?n" by simp
  have "0 < length ns" using l by linarith
  then have "0 < length ?ps" by (simp only: length_fisher_yates)
  then have ne: "?ps \<noteq> []" by (metis length_greater_0_conv)
  have d: "distinct ?ps" using chain_distinct [OF c] ms by (metis mset_eq_imp_distinct_iff)
  have set: "set ?ps = set ns" using ms by (rule mset_eq_setD)
  have v: "\<forall>a \<in> set ?ps. a < length ?st" using chain_valid [OF c] set by simp
  have v4: "\<forall>a \<in> set ?ps. a < length ?st4" using v by simp
  have sh: "shuffle draw q = Some ?q"
    using sz l ne rep_nodes_of [OF r] by (simp add: shuffle_def Let_def)
  have p0: "?ps ! 0 < length ?st" using v ne by (simp add: hd_conv_nth [symmetric])
  have pl: "last ?ps < length ?st" using v ne by simp
  have ll: "last ?ps = ?ps ! (?n - 1)" using ne lp by (simp add: last_conv_nth)
  from relink_fields [OF d v4 lp [symmetric], of ?n]
  have len: "length ?st' = length ?st"
    and dat: "\<And>b. data (?st' ! b) = data (?st ! b)"
    and nx: "\<And>k. k < ?n \<Longrightarrow> next (?st' ! (?ps ! k))
               = (if k < ?n - 1 then Some (?ps ! (k + 1)) else next (?st4 ! (?ps ! k)))"
    and pv: "\<And>k. k < ?n \<Longrightarrow> prev (?st' ! (?ps ! k))
               = (if k > 0 then Some (?ps ! (k - 1)) else prev (?st4 ! (?ps ! k)))"
    by simp_all
  have c': "chain ?st' ?ps"
  proof (rule chainI)
    show "distinct ?ps" by (rule d)
  next
    fix a assume "a \<in> set ?ps"
    with v show "a < length ?st'" unfolding len by blast
  next
    fix i assume "i < length ?ps"
    then have i: "i < ?n" by simp
    have "next (?st4 ! (?ps ! (?n - 1))) = None" using pl p0 ll by simp
    with nx [OF i] i show "next (?st' ! (?ps ! i)) = (if Suc i < length ?ps then Some (?ps ! Suc i) else None)"
      by (cases "i = ?n - 1") auto
  next
    fix i assume "i < length ?ps"
    then have i: "i < ?n" by simp
    have "prev (?st4 ! (?ps ! 0)) = None" using p0 by simp
    with pv [OF i] show "prev (?st' ! (?ps ! i)) = (if i = 0 then None else Some (?ps ! (i - 1)))"
      by (cases "i = 0") auto
  qed
  have "rep ?q ?ps"
    using c' ne sz cu set by (simp add: rep_def hd_conv_nth)
  with sh len dat show ?thesis by simp
qed

subsection \<open>Sequences of appends\<close>

lemma clear_rep: "rep (clear q) []"
  by (simp add: rep_def clear_def chain_def)

lemma rep_songs: "rep q ns \<Longrightarrow> songs_of q = Some (map (\<lambda>a. data (store q ! a)) ns)"
  by (simp add: songs_of_def rep_nodes_of)

lemma append_all_rep:
  "rep q ns \<Longrightarrow>
     \<exists>q'. append_all xs q = Some q'
        \<and> rep q' (ns @ [length (store q)..<length (store q) + length xs])
        \<and> length (store q') = length (store q) + length xs
        \<and> (\<forall>a < length (store q). data (store q' ! a) = data (store q ! a))
        \<and> (\<forall>j < length xs. data (store q' ! (length (store q) + j)) = xs ! j)
        \<and> current q' = (if ns = [] \<and> xs \<noteq> [] then Some (length (store q)) else current q)"
proof (induction xs arbitrary: q ns)
  case Nil
  then show ?case by simp
next
  case (Cons x xs)
  let ?l = "length (store q)"
  from append_rep [OF Cons.prems, of x] obtain q1 where
    a: "append_dll x q = Some q1" and r1: "rep q1 (ns @ [?l])"
    and l1: "length (store q1) = Suc ?l" and d1: "data (store q1 ! ?l) = x"
    and o1: "\<forall>a < ?l. data (store q1 ! a) = data (store q ! a)"
    and c1: "current q1 = (if ns = [] then Some ?l else current q)"
    by blast
  from Cons.IH [OF r1] obtain q' where
    b: "append_all xs q1 = Some q'"
    and r': "rep q' ((ns @ [?l]) @ [length (store q1)..<length (store q1) + length xs])"
    and l': "length (store q') = length (store q1) + length xs"
    and o': "\<forall>a < length (store q1). data (store q' ! a) = data (store q1 ! a)"
    and n': "\<forall>j < length xs. data (store q' ! (length (store q1) + j)) = xs ! j"
    and c': "current q' = (if ns @ [?l] = [] \<and> xs \<noteq> [] then Some (length (store q1)) else current q1)"
    by blast
  have "[?l..<Suc (?l + length xs)] = ?l # [Suc ?l..<Suc (?l + length xs)]"
    by (rule upt_conv_Cons) simp
  then have e: "(ns @ [?l]) @ [Suc ?l..<Suc ?l + length xs] = ns @ [?l..<?l + length (x # xs)]"
    by simp
  have 1: "append_all (x # xs) q = Some q'" using a b by simp
  have 2: "rep q' (ns @ [?l..<?l + length (x # xs)])" using r' unfolding l1 e .
  have 3: "length (store q') = ?l + length (x # xs)" using l' l1 by simp
  have 4: "\<forall>a < ?l. data (store q' ! a) = data (store q ! a)" using o' o1 l1 by simp
  have 5: "\<forall>j < length (x # xs). data (store q' ! (?l + j)) = (x # xs) ! j"
  proof (intro allI impI)
    fix j assume j: "j < length (x # xs)"
    show "data (store q' ! (?l + j)) = (x # xs) ! j"
    proof (cases j)
      case 0
      then show ?thesis using o' l1 d1 by simp
    next
      case (Suc i)
      with j have "i < length xs" by simp
      with n' have "data (store q' ! (length (store q1) + i)) = xs ! i" by blast
      then show ?thesis by (simp add: Suc l1)
    qed
  qed
  have 6: "current q' = (if ns = [] \<and> x # xs \<noteq> [] then Some ?l else current q)"
    using c' c1 by simp
  from 1 2 3 4 5 6 show ?case by blast
qed

lemma append_all_songs:
  assumes r: "rep q ns"
  shows "\<exists>q'. append_all xs q = Some q' \<and> dll_inv q'
           \<and> songs_of q' = Some (map (\<lambda>a. data (store q ! a)) ns @ xs)
           \<and> size_dll q' = size_dll q + int (length xs)"
proof -
  let ?l = "length (store q)"
  from append_all_rep [OF r, of xs] obtain q' where
    a: "append_all xs q = Some q'"
    and r': "rep q' (ns @ [?l..<?l + length xs])"
    and o: "\<forall>a < ?l. data (store q' ! a) = data (store q ! a)"
    and n: "\<forall>j < length xs. data (store q' ! (?l + j)) = xs ! j"
    by blast
  have v: "\<forall>a \<in> set ns. a < ?l" using r by (simp add: rep_def chain_def)
  have 1: "map (\<lambda>a. data (store q' ! a)) ns = map (\<lambda>a. data (store q ! a)) ns"
    using v o by simp
  have 2: "map (\<lambda>a. data (store q' ! a)) [?l..<?l + length xs] = xs"
    using n by (intro nth_equalityI) simp_all
  have s: "songs_of q' = Some (map (\<lambda>a. data (store q ! a)) ns @ xs)"
    using rep_songs [OF r'] 1 2 by simp
  have z: "size_dll q' = size_dll q + int (length xs)"
    using r r' by (simp add: rep_def)
  from a rep_imp_inv [OF r'] s z show ?thesis by blast
qed

text \<open>
  Claim C6. Appending a finite sequence of tracks to an empty queue (a new one, or any
  queue after \<^verbatim>\<open>clear\<close>) returns a queue whose size is the number of appends and whose
  head-to-tail traversal gives the tracks in append order, and the chain is valid. The
  first append into the empty queue makes the new node, which holds the track, the head,
  the tail and the current node.
\<close>

theorem append_order:
  "(\<exists>q'. append_all xs (clear q) = Some q'
        \<and> size_dll q' = int (length xs) \<and> songs_of q' = Some xs \<and> dll_inv q')
   \<and> (\<exists>q1. append_dll x (clear q) = Some q1
        \<and> head q1 = Some (length (store q)) \<and> tail q1 = Some (length (store q))
        \<and> current q1 = Some (length (store q))
        \<and> store q1 ! length (store q) = Node x)"
proof
  from append_all_songs [OF clear_rep, of xs q]
  show "\<exists>q'. append_all xs (clear q) = Some q'
        \<and> size_dll q' = int (length xs) \<and> songs_of q' = Some xs \<and> dll_inv q'"
    by (auto simp: clear_def)
next
  show "\<exists>q1. append_dll x (clear q) = Some q1
        \<and> head q1 = Some (length (store q)) \<and> tail q1 = Some (length (store q))
        \<and> current q1 = Some (length (store q))
        \<and> store q1 ! length (store q) = Node x"
    by (simp add: append_dll_def clear_def Let_def)
qed

theorem append_order_witness:
  "(\<exists>q'. append_all [song_A, song_B, song_C] (clear DoublyLinkedList) = Some q'
        \<and> size_dll q' = 3 \<and> songs_of q' = Some [song_A, song_B, song_C] \<and> dll_inv q')
   \<and> (\<exists>q1. append_dll song_A (clear DoublyLinkedList) = Some q1
        \<and> head q1 = Some 0 \<and> tail q1 = Some 0 \<and> current q1 = Some 0
        \<and> store q1 ! 0 = Node song_A)"
  using append_order [of "[song_A, song_B, song_C]" DoublyLinkedList song_A]
  by (simp add: DoublyLinkedList_def)

subsection \<open>Removal, invariants and shuffle: the claims\<close>

lemma queue_ABC_nodes: "nodes_of queue_ABC = Some [0, 1, 2]"
  by (simp add: nodes_of_def queue_ABC_def)

lemma queue_ABC_inv: "dll_inv queue_ABC"
  by (simp add: dll_inv_def queue_ABC_nodes) (simp add: queue_ABC_def)

text \<open>
  Claim C1. For a queue that satisfies the structural invariants and a node \<open>n\<close> of its
  chain, \<^verbatim>\<open>remove_node\<close> excises \<open>n\<close>: the chain is the old one without \<open>n\<close>, the tracks of
  the nodes are unchanged and the links of \<open>n\<close> are cleared. If \<open>n\<close> was current, current
  becomes the former next node of \<open>n\<close>, or else its former prev node, and it is \<^verbatim>\<open>None\<close>
  exactly when the queue has become empty; otherwise current is unchanged. In no case
  does current refer to \<open>n\<close> afterwards.
\<close>

theorem remove_node_current:
  assumes "dll_inv q" and "nodes_of q = Some ns" and "n \<in> set ns"
  shows "nodes_of (remove_node (Some n) q) = Some (remove1 n ns)
         \<and> n \<notin> set (remove1 n ns)
         \<and> (\<forall>b. data (store (remove_node (Some n) q) ! b) = data (store q ! b))
         \<and> next (store (remove_node (Some n) q) ! n) = None
         \<and> prev (store (remove_node (Some n) q) ! n) = None
         \<and> current (remove_node (Some n) q)
             = (if current q = Some n
                then (case next (store q ! n) of Some x \<Rightarrow> Some x | None \<Rightarrow> prev (store q ! n))
                else current q)
         \<and> (current q = Some n \<longrightarrow>
               (current (remove_node (Some n) q) = None) = (remove1 n ns = []))
         \<and> current (remove_node (Some n) q) \<noteq> Some n"
proof -
  let ?q = "remove_node (Some n) q"
  from assms have r: "rep q ns" by (intro inv_imp_rep)
  then have c: "chain (store q) ns" by (simp add: rep_def)
  have d: "distinct ns" using c by (rule chain_distinct)
  from assms(3) obtain k where k: "k < length ns" and n: "n = ns ! k"
    by (auto simp: in_set_conv_nth)
  have e: "remove1 n ns = take k ns @ drop (Suc k) ns"
    unfolding n using d k by (rule remove1_nth)
  from remove_rep [OF r k, folded n, folded e] have r': "rep ?q (remove1 n ns)"
    and cu: "current ?q = (if Some n = current q
                then (case next (store q ! n) of Some x \<Rightarrow> Some x | None \<Rightarrow> prev (store q ! n))
                else current q)"
    and dt: "\<forall>b. data (store ?q ! b) = data (store q ! b)"
    and nx: "next (store ?q ! n) = None" and pv: "prev (store ?q ! n) = None"
    by simp_all
  have 1: "nodes_of ?q = Some (remove1 n ns)" using r' by (rule rep_nodes_of)
  have 2: "n \<notin> set (remove1 n ns)" using d by simp
  have 3: "current ?q = (if current q = Some n
                then (case next (store q ! n) of Some x \<Rightarrow> Some x | None \<Rightarrow> prev (store q ! n))
                else current q)"
    using cu by auto
  have 4: "(current ?q = None) = (remove1 n ns = [])" if "current q = Some n"
  proof -
    have "(current ?q = None) = (\<not> Suc k < length ns \<and> k = 0)"
      using that 3 chain_nextD [OF c k] chain_prevD [OF c k] by (simp add: n)
    also have "\<dots> = (length (remove1 n ns) = 0)"
      using k by (auto simp: e)
    finally show ?thesis by simp
  qed
  have 5: "current ?q \<noteq> Some n"
    using r' 2 by (auto simp: rep_def)
  from 1 2 dt nx pv 3 4 5 show ?thesis by blast
qed

theorem remove_node_current_witness:
  "dll_inv queue_ABC \<and> nodes_of queue_ABC = Some [0, 1, 2]
   \<and> nodes_of (remove_node (Some 1) queue_ABC) = Some [0, 2]
   \<and> current queue_ABC = Some 1
   \<and> current (remove_node (Some 1) queue_ABC) = Some 2"
  using remove_node_current [OF queue_ABC_inv queue_ABC_nodes, of 1]
  by (simp add: queue_ABC_inv queue_ABC_nodes) (simp add: queue_ABC_def)

lemma new_queue_inv: "dll_inv DoublyLinkedList"
  by (simp add: dll_inv_def nodes_of_def DoublyLinkedList_def)

text \<open>
  Claim C4. Every mutating operation of the queue preserves the structural invariants
  \<open>dll_inv\<close>: \<^verbatim>\<open>append\<close> (which returns), \<^verbatim>\<open>clear\<close>, \<^verbatim>\<open>remove_node\<close> of a node of the
  queue (and of \<^verbatim>\<open>None\<close>), \<^verbatim>\<open>swap_nodes\<close> of a node of the queue with any other reference
  (a swap when the second is its next node, no change otherwise), and \<^verbatim>\<open>shuffle\<close>
  (which returns) for draws in the range of \<^verbatim>\<open>random.randint(0, i)\<close>. The invariants
  are those the claim lists, with the consistency of \<^verbatim>\<open>head\<close> and \<^verbatim>\<open>tail\<close> that the
  specification asks for: \<^verbatim>\<open>tail\<close> is the last node reachable from \<^verbatim>\<open>head\<close>. A new queue
  satisfies them (\<open>new_queue_inv\<close>), hence so does every queue that these operations
  make from it.
\<close>

theorem mutations_preserve_invariants:
  assumes "dll_inv q" and "nodes_of q = Some ns"
  shows "(\<exists>q'. append_dll d q = Some q' \<and> dll_inv q')
         \<and> dll_inv (clear q)
         \<and> dll_inv (remove_node None q)
         \<and> (n \<in> set ns \<longrightarrow> dll_inv (remove_node (Some n) q))
         \<and> (n1 \<in> set ns \<longrightarrow> dll_inv (swap_nodes (Some n1) node2 q))
         \<and> dll_inv (swap_nodes None node2 q)
         \<and> ((\<forall>i. draw i \<le> i) \<longrightarrow> (\<exists>q'. shuffle draw q = Some q' \<and> dll_inv q'))"
proof -
  from assms have r: "rep q ns" by (intro inv_imp_rep)
  then have c: "chain (store q) ns" by (simp add: rep_def)
  have d: "distinct ns" using c by (rule chain_distinct)
  have 1: "\<exists>q'. append_dll d q = Some q' \<and> dll_inv q'"
    using append_rep [OF r, of d] rep_imp_inv by blast
  have 2: "dll_inv (clear q)" using clear_rep by (rule rep_imp_inv)
  have 3: "dll_inv (remove_node None q)" using assms(1) by (simp add: remove_node_def)
  have 4: "dll_inv (remove_node (Some n) q)" if "n \<in> set ns"
  proof -
    from that obtain k where k: "k < length ns" and n: "n = ns ! k"
      by (auto simp: in_set_conv_nth)
    from remove_rep [OF r k] show ?thesis unfolding n by (blast intro: rep_imp_inv)
  qed
  have 5: "dll_inv (swap_nodes (Some n1) node2 q)" if "n1 \<in> set ns"
  proof (cases "node2 \<noteq> None \<and> next (store q ! n1) = node2")
    case True
    then obtain n2 where n2: "node2 = Some n2" and adj: "next (store q ! n1) = Some n2" by auto
    from that obtain k where k: "k < length ns" and n: "n1 = ns ! k"
      by (auto simp: in_set_conv_nth)
    from chain_nextD [OF c k] adj have sk: "Suc k < length ns" and m: "n2 = ns ! Suc k"
      by (auto simp: n split: if_splits)
    from swap_rep [OF r sk] show ?thesis unfolding n2 n m by (rule rep_imp_inv)
  next
    case False
    then have "swap_nodes (Some n1) node2 q = q"
      by (cases node2) (auto simp: swap_nodes_def)
    with assms(1) show ?thesis by simp
  qed
  have 6: "dll_inv (swap_nodes None node2 q)" using assms(1) by (simp add: swap_nodes_def)
  have 7: "\<exists>q'. shuffle draw q = Some q' \<and> dll_inv q'" if dr: "\<forall>i. draw i \<le> i"
  proof (cases "2 \<le> length ns")
    case True
    from shuffle_rep [OF r dr True] show ?thesis by (blast intro: rep_imp_inv)
  next
    case False
    with r have "size_dll q < 2" by (simp add: rep_def)
    then show ?thesis using assms(1) by (simp add: shuffle_small)
  qed
  from 1 2 3 4 5 6 7 show ?thesis by blast
qed

theorem mutations_preserve_invariants_witness:
  "dll_inv queue_ABC \<and> nodes_of queue_ABC = Some [0, 1, 2]
   \<and> (\<exists>q'. append_dll song_A queue_ABC = Some q' \<and> dll_inv q')
   \<and> dll_inv (clear queue_ABC)
   \<and> dll_inv (remove_node (Some 1) queue_ABC)
   \<and> dll_inv (swap_nodes (Some 0) (Some 1) queue_ABC)
   \<and> (\<exists>q'. shuffle (\<lambda>i. 0) queue_ABC = Some q' \<and> dll_inv q')"
  using mutations_preserve_invariants
          [OF queue_ABC_inv queue_ABC_nodes, of song_A 1 0 "Some 1" "\<lambda>i. 0"]
  by (simp add: queue_ABC_inv queue_ABC_nodes)

text \<open>
  Claim C3. On a queue that satisfies the structural invariants, with draws in the range
  of \<^verbatim>\<open>random.randint(0, i)\<close>, \<^verbatim>\<open>shuffle\<close> returns a queue whose chain is a permutation of
  the old chain: the same nodes, hence the same multiset of tracks, since no node changes
  its track. The size is unchanged, the new chain satisfies the structural invariants,
  \<^verbatim>\<open>current\<close> is the same node holding the same track, and a queue of size below 2 is
  returned as it is.
\<close>

theorem shuffle_permutes:
  assumes "dll_inv q" and "\<forall>i. draw i \<le> i"
  shows "\<exists>q' ns ns' ss ss'.
           shuffle draw q = Some q'
           \<and> nodes_of q = Some ns \<and> nodes_of q' = Some ns' \<and> mset ns' = mset ns
           \<and> songs_of q = Some ss \<and> songs_of q' = Some ss' \<and> mset ss' = mset ss
           \<and> size_dll q' = size_dll q
           \<and> dll_inv q'
           \<and> current q' = current q
           \<and> (\<forall>b. data (store q' ! b) = data (store q ! b))
           \<and> (size_dll q < 2 \<longrightarrow> q' = q)"
proof -
  from inv_rep_ex [OF assms(1)] obtain ns where ns: "nodes_of q = Some ns" and r: "rep q ns"
    by blast
  show ?thesis
  proof (cases "2 \<le> length ns")
    case True
    let ?ps = "fisher_yates draw (length ns - 1) ns"
    from shuffle_rep [OF r assms(2) True] obtain q' where
      s: "shuffle draw q = Some q'" and r': "rep q' ?ps"
      and cu: "current q' = current q" and sz: "size_dll q' = size_dll q"
      and dt: "\<forall>b. data (store q' ! b) = data (store q ! b)"
      by blast
    have ms: "mset ?ps = mset ns" using assms(2) True by (intro mset_fisher_yates) simp_all
    have "mset (map (\<lambda>a. data (store q' ! a)) ?ps)
          = image_mset (\<lambda>a. data (store q ! a)) (mset ?ps)"
      using dt by simp
    also have "\<dots> = image_mset (\<lambda>a. data (store q ! a)) (mset ns)"
      by (simp only: ms)
    also have "\<dots> = mset (map (\<lambda>a. data (store q ! a)) ns)"
      by simp
    finally have "mset (map (\<lambda>a. data (store q' ! a)) ?ps)
          = mset (map (\<lambda>a. data (store q ! a)) ns)" .
    moreover have "\<not> size_dll q < 2" using r True by (simp add: rep_def)
    ultimately show ?thesis
      using s ns rep_nodes_of [OF r'] ms rep_songs [OF r] rep_songs [OF r'] sz
        rep_imp_inv [OF r'] cu dt
      by blast
  next
    case False
    with r have "size_dll q < 2" by (simp add: rep_def)
    then have "shuffle draw q = Some q" by (rule shuffle_small)
    then show ?thesis using ns rep_songs [OF r] assms(1) by simp
  qed
qed

theorem shuffle_permutes_witness:
  "dll_inv queue_ABC \<and> (\<forall>i. (\<lambda>i. 0 :: nat) i \<le> i)
   \<and> (\<exists>q' ns ns' ss ss'.
           shuffle (\<lambda>i. 0) queue_ABC = Some q'
           \<and> nodes_of queue_ABC = Some ns \<and> nodes_of q' = Some ns' \<and> mset ns' = mset ns
           \<and> songs_of queue_ABC = Some ss \<and> songs_of q' = Some ss' \<and> mset ss' = mset ss
           \<and> size_dll q' = size_dll queue_ABC
           \<and> dll_inv q'
           \<and> current q' = current queue_ABC
           \<and> (\<forall>b. data (store q' ! b) = data (store queue_ABC ! b))
           \<and> (size_dll queue_ABC < 2 \<longrightarrow> q' = queue_ABC))"
  using shuffle_permutes [OF queue_ABC_inv, of "\<lambda>i. 0"] queue_ABC_inv
  by simp

subsection \<open>Next and previous with nothing to go to\<close>

text \<open>
  Claim C10. When the queue has no current node, \<^verbatim>\<open>play_next\<close> returns with the whole
  state unchanged: nothing is pushed, current stays \<^verbatim>\<open>None\<close> and \<^verbatim>\<open>is_playing\<close> is
  untouched. When the history is empty and the queue has no current node, or its
  current node has no prev node, \<^verbatim>\<open>play_prev\<close> returns with the whole state unchanged.
\<close>

theorem next_prev_without_target:
  "(current (queue a) = None \<longrightarrow> play_next rs a = Some a)
   \<and> (is_empty_stack (history a) \<and> current (queue a) = None \<longrightarrow> play_prev rs a = Some a)
   \<and> (is_empty_stack (history a) \<and> current (queue a) = Some c
        \<and> prev (store (queue a) ! c) = None \<longrightarrow> play_prev rs a = Some a)"
  by (simp add: play_prev_def)

theorem next_prev_without_target_witness:
  "current (queue app_started) = None
   \<and> play_next [reply_ok] app_started = Some app_started
   \<and> is_empty_stack (history app_started)
   \<and> play_prev [reply_ok] app_started = Some app_started
   \<and> is_empty_stack (history (app_ABC\<lparr>queue := queue_ABC\<lparr>current := Some 0\<rparr>\<rparr>))
   \<and> prev (store queue_ABC ! 0) = None
   \<and> play_prev [reply_ok] (app_ABC\<lparr>queue := queue_ABC\<lparr>current := Some 0\<rparr>\<rparr>)
       = Some (app_ABC\<lparr>queue := queue_ABC\<lparr>current := Some 0\<rparr>\<rparr>)"
  using next_prev_without_target [of app_started "[reply_ok]" 0]
    next_prev_without_target [of "app_ABC\<lparr>queue := queue_ABC\<lparr>current := Some 0\<rparr>\<rparr>" "[reply_ok]" 0]
  by (simp add: app_started_def app_ABC_def queue_ABC_def DoublyLinkedList_def Stack_def
        is_empty_stack_def)

subsection \<open>Next at the last node\<close>

lemma inv_tail_next: "dll_inv q \<Longrightarrow> tail q = Some t \<Longrightarrow> next (store q ! t) = None"
  by (cases "nodes_of q") (auto simp: dll_inv_def)

lemma inv_tail_head: "dll_inv q \<Longrightarrow> tail q = Some t \<Longrightarrow> \<exists>h. head q = Some h"
proof -
  assume i: "dll_inv q" and t: "tail q = Some t"
  from inv_rep_ex [OF i] obtain ns where r: "rep q ns" by blast
  with t show ?thesis by (cases "ns = []") (simp_all add: rep_def)
qed

theorem play_next_at_tail_counterexample:
  "dll_inv (queue app_at_C)
   \<and> current (queue app_at_C) = Some 2 \<and> tail (queue app_at_C) = Some 2
   \<and> \<not> is_looping app_at_C \<and> items (history app_at_C) = []
   \<and> (\<exists>a'. play_next [reply_ok] app_at_C = Some a' \<and> items (history a') = [2])"
proof -
  have "queue app_at_C = queue_ABC\<lparr>current := Some 2\<rparr>"
    by (simp add: app_at_C_def app_ABC_def)
  moreover have "nodes_of (queue_ABC\<lparr>current := Some 2\<rparr>) = Some [0, 1, 2]"
    by (simp add: nodes_of_def queue_ABC_def)
  ultimately have "dll_inv (queue app_at_C)"
    by (simp add: dll_inv_def) (simp add: queue_ABC_def)
  then show ?thesis
    by (simp add: app_at_C_def app_ABC_def queue_ABC_def push_def Stack_def)
qed

text \<open>
  Claim C2, as amended. For a queue that satisfies the structural invariants and whose
  current node is the tail \<open>t\<close>, \<^verbatim>\<open>play_next\<close> first pushes \<open>t\<close> on the history stack, with
  loop disabled as with loop enabled. With loop disabled it then returns with
  \<^verbatim>\<open>is_playing\<close> false and the queue as it was, so current is still \<open>t\<close>. With loop
  enabled it sets current to the head and calls \<^verbatim>\<open>play_current\<close>; when \<^verbatim>\<open>pygame\<close> is
  available, the backend loads and plays the track and reports that it is busy with it,
  the call returns with the head current and playing: \<^verbatim>\<open>load\<close> and \<^verbatim>\<open>play\<close> have been
  called for its path, \<^verbatim>\<open>is_playing\<close> is true and the display shows its title and artist.
\<close>

theorem play_next_at_tail:
  assumes "dll_inv (queue a)" and "current (queue a) = Some t" and "tail (queue a) = Some t"
  shows "(\<not> is_looping a \<longrightarrow>
            (\<exists>a'. play_next rs a = Some a'
               \<and> history a' = push t (history a)
               \<and> queue a' = queue a
               \<and> \<not> is_playing a'))
         \<and> (is_looping a \<longrightarrow>
            play_next rs a
            = play_current rs (a\<lparr>history := push t (history a),
                                  queue := (queue a)\<lparr>current := head (queue a)\<rparr>\<rparr>))
         \<and> (is_looping a \<and> has_deps a \<and> load_ok r \<and> play_ok r \<and> busy r \<longrightarrow>
            (\<exists>a' h. play_next (r # rs) a = Some a'
               \<and> head (queue a) = Some h
               \<and> history a' = push t (history a)
               \<and> queue a' = (queue a)\<lparr>current := Some h\<rparr>
               \<and> is_playing a' \<and> btn_play a' = Pause_icon
               \<and> mixer a' = mixer a @ [Load (path (data (store (queue a) ! h))), Play]
               \<and> lbl_now_title a' = title (data (store (queue a) ! h))
               \<and> lbl_now_artist a' = artist (data (store (queue a) ! h))))"
proof -
  have n: "next (store (queue a) ! t) = None"
    using assms(1,3) by (rule inv_tail_next)
  from inv_tail_head [OF assms(1,3)] obtain h where h: "head (queue a) = Some h" by blast
  have 1: "\<exists>a'. play_next rs a = Some a'
               \<and> history a' = push t (history a)
               \<and> queue a' = queue a
               \<and> \<not> is_playing a'"
    if "\<not> is_looping a"
    using that assms(2) n by (simp add: Let_def)
  have 2: "play_next rs a
            = play_current rs (a\<lparr>history := push t (history a),
                                  queue := (queue a)\<lparr>current := head (queue a)\<rparr>\<rparr>)"
    if "is_looping a" for rs
    using that assms(2) n by (simp add: Let_def)
  have 3: "\<exists>a' h. play_next (r # rs) a = Some a'
               \<and> head (queue a) = Some h
               \<and> history a' = push t (history a)
               \<and> queue a' = (queue a)\<lparr>current := Some h\<rparr>
               \<and> is_playing a' \<and> btn_play a' = Pause_icon
               \<and> mixer a' = mixer a @ [Load (path (data (store (queue a) ! h))), Play]
               \<and> lbl_now_title a' = title (data (store (queue a) ! h))
               \<and> lbl_now_artist a' = artist (data (store (queue a) ! h))"
    if "is_looping a" "has_deps a" "load_ok r" "play_ok r" "busy r"
    unfolding 2 [OF that(1)] using that h
    by (cases "sound_length r") (simp_all add: Let_def)
  from 1 2 3 show ?thesis by blast
qed

theorem play_next_at_tail_witness:
  "dll_inv (queue app_at_C)
   \<and> current (queue app_at_C) = Some 2 \<and> tail (queue app_at_C) = Some 2
   \<and> \<not> is_looping app_at_C
   \<and> (\<exists>a'. play_next [reply_ok] app_at_C = Some a'
          \<and> history a' = push 2 (history app_at_C)
          \<and> queue a' = queue app_at_C
          \<and> \<not> is_playing a')
   \<and> is_looping (app_at_C\<lparr>is_looping := True\<rparr>) \<and> has_deps (app_at_C\<lparr>is_looping := True\<rparr>)
   \<and> load_ok reply_ok \<and> play_ok reply_ok \<and> busy reply_ok
   \<and> (\<exists>a'. play_next [reply_ok] (app_at_C\<lparr>is_looping := True\<rparr>) = Some a'
          \<and> items (history a') = [2]
          \<and> current (queue a') = Some 0
          \<and> is_playing a'
          \<and> mixer a' = [Load (Some ''c.mp3''), Play, Load (Some ''a.mp3''), Play]
          \<and> lbl_now_title a' = ''A'')"
proof -
  have q: "queue app_at_C = queue_ABC\<lparr>current := Some 2\<rparr>"
    by (simp add: app_at_C_def app_ABC_def)
  have "nodes_of (queue_ABC\<lparr>current := Some 2\<rparr>) = Some [0, 1, 2]"
    by (simp add: nodes_of_def queue_ABC_def)
  with q have i: "dll_inv (queue app_at_C)"
    by (simp add: dll_inv_def) (simp add: queue_ABC_def)
  have c: "current (queue app_at_C) = Some 2" and t: "tail (queue app_at_C) = Some 2"
    by (simp_all add: q queue_ABC_def)
  have l: "\<not> is_looping app_at_C" by (simp add: app_at_C_def app_ABC_def)
  have i': "dll_inv (queue (app_at_C\<lparr>is_looping := True\<rparr>))" using i by simp
  have c': "current (queue (app_at_C\<lparr>is_looping := True\<rparr>)) = Some 2"
    and t': "tail (queue (app_at_C\<lparr>is_looping := True\<rparr>)) = Some 2"
    using c t by simp_all
  have 1: "\<exists>a'. play_next [reply_ok] app_at_C = Some a'
          \<and> history a' = push 2 (history app_at_C)
          \<and> queue a' = queue app_at_C
          \<and> \<not> is_playing a'"
    using play_next_at_tail [OF i c t, of "[reply_ok]" reply_ok] l by blast
  have 2: "\<exists>a'. play_next [reply_ok] (app_at_C\<lparr>is_looping := True\<rparr>) = Some a'
          \<and> items (history a') = [2]
          \<and> current (queue a') = Some 0
          \<and> is_playing a'
          \<and> mixer a' = [Load (Some ''c.mp3''), Play, Load (Some ''a.mp3''), Play]
          \<and> lbl_now_title a' = ''A''"
    by (simp add: reply_ok_def app_at_C_def app_ABC_def queue_ABC_def push_def Stack_def
          song_A_def Let_def)
  from 1 2 i c t l show ?thesis by (simp add: reply_ok_def app_at_C_def app_ABC_def)
qed

subsection \<open>Removing the current node\<close>

lemma chain_walk:
  "chain st ns \<Longrightarrow> i + k < length ns \<Longrightarrow> walk k st (Some (ns ! i)) = Some (Some (ns ! (i + k)))"
proof (induction k arbitrary: i)
  case 0
  then show ?case by simp
next
  case (Suc k)
  from Suc.prems have i: "i < length ns" "Suc i < length ns" "Suc i + k < length ns" by simp_all
  from Suc.IH [OF Suc.prems(1) i(3)] chain_nextD [OF Suc.prems(1) i(1)] i(2)
  show ?case by simp
qed

lemma rep_get_node_at_index:
  assumes "rep q ns" and "k < length ns"
  shows "get_node_at_index (int k) q = Some (Some (ns ! k))"
proof -
  from assms have c: "chain (store q) ns" and h: "head q = Some (ns ! 0)"
    and s: "size_dll q = int (length ns)"
    by (auto simp: rep_def hd_conv_nth)
  from chain_walk [OF c, of 0 k] assms(2) h s show ?thesis
    by (simp add: get_node_at_index_def)
qed

text \<open>
  While the controller is playing, removing the current node stops the backend and
  clears the display.
\<close>

lemma remove_current_while_playing:
  assumes "dll_inv (queue a)" and "nodes_of (queue a) = Some ns" and "k < length ns"
    and "current (queue a) = Some (ns ! k)" and "is_playing a" and "has_deps a"
  shows "\<exists>a' ss. remove_from_queue_ui (int k) a = Some a'
           \<and> queue a' = remove_node (Some (ns ! k)) (queue a)
           \<and> current (queue a')
               = (case next (store (queue a) ! (ns ! k)) of
                    Some x \<Rightarrow> Some x
                  | None \<Rightarrow> prev (store (queue a) ! (ns ! k)))
           \<and> dll_inv (queue a')
           \<and> songs_of (queue a') = Some ss \<and> current_view_songs a' = ss
           \<and> \<not> is_playing a'
           \<and> mixer a' = mixer a @ [Stop] \<and> lbl_now_title a' = ''Not Playing''
           \<and> lbl_now_artist a' = [] \<and> lbl_total_time a' = Zero_label
           \<and> btn_play a' = Play_icon \<and> current_time a' = 0"
proof -
  let ?n = "ns ! k"
  let ?q = "remove_node (Some ?n) (queue a)"
  from assms(1,2) have r: "rep (queue a) ns" by (rule inv_imp_rep)
  have g: "get_node_at_index (int k) (queue a) = Some (Some ?n)"
    using r assms(3) by (rule rep_get_node_at_index)
  from remove_rep [OF r assms(3)]
  have r': "rep ?q (take k ns @ drop (Suc k) ns)"
    and cu: "current ?q = (case next (store (queue a) ! ?n) of
                             Some x \<Rightarrow> Some x
                           | None \<Rightarrow> prev (store (queue a) ! ?n))"
    using assms(4) by simp_all
  from rep_songs [OF r'] obtain ss where ss: "songs_of ?q = Some ss" by blast
  note i' = rep_imp_inv [OF r']
  from assms(5,6) g ss cu i' assms(4) show ?thesis
    by (simp add: remove_from_queue_ui_def show_queue_def Let_def)
qed

text \<open>
  Claim C9. When the node removed from the queue is the current node and the controller
  is playing or paused, \<^verbatim>\<open>remove_from_queue_ui\<close> should stop the backend, clear the
  display and reassign current. The code does so only while \<^verbatim>\<open>is_playing\<close> is true,
  which pausing makes false. Here the application plays \<open>B\<close> of the queue \<open>A\<close>, \<open>B\<close>, \<open>C\<close>
  and \<^verbatim>\<open>toggle_play\<close> pauses it; removing the node of \<open>B\<close> then makes \<open>C\<close> current, but
  \<^verbatim>\<open>music.stop()\<close> is not called and the display still shows \<open>B\<close>; and the next
  \<^verbatim>\<open>toggle_play\<close> unpauses the removed track \<open>B\<close> while the current node is that of \<open>C\<close>.
\<close>

theorem remove_paused_current:
  "toggle_play None False False False (\<lambda>i. 0) [] app_ABC = Some app_paused
   \<and> current (queue app_paused) = Some 1 \<and> \<not> is_playing app_paused
   \<and> get_node_at_index 1 (queue app_paused) = Some (Some 1)
   \<and> (\<exists>a' a''. remove_from_queue_ui 1 app_paused = Some a'
          \<and> songs_of (queue a') = Some [song_A, song_C] \<and> current (queue a') = Some 2
          \<and> mixer a' = mixer app_paused \<and> Stop \<notin> set (mixer a')
          \<and> lbl_now_title a' = ''B'' \<and> lbl_now_artist a' = ''Y''
          \<and> toggle_play None True True True (\<lambda>i. 0) [] a' = Some a''
          \<and> mixer a'' = mixer app_paused @ [Unpause] \<and> is_playing a''
          \<and> lbl_now_title a'' = ''B'' \<and> current (queue a'') = Some 2)"
proof -
  have q: "queue app_paused = queue_ABC" by (simp add: app_paused_def app_ABC_def)
  have 1: "toggle_play None False False False (\<lambda>i. 0) [] app_ABC = Some app_paused"
    by (simp add: toggle_play_def app_paused_def app_ABC_def queue_ABC_def)
  have 2: "get_node_at_index 1 queue_ABC = Some (Some 1)"
    using rep_get_node_at_index [OF inv_imp_rep [OF queue_ABC_inv queue_ABC_nodes], of 1]
    by simp
  have n: "nodes_of (remove_node (Some 1) queue_ABC) = Some [0, 2]"
    by (simp add: nodes_of_def remove_node_def queue_ABC_def set_next_def set_prev_def)
  have s: "songs_of (remove_node (Some 1) queue_ABC) = Some [song_A, song_C]"
    using n by (simp add: songs_of_def) (simp add: remove_node_def queue_ABC_def set_next_def
        set_prev_def)
  have c: "current (remove_node (Some 1) queue_ABC) = Some 2"
    by (simp add: remove_node_def queue_ABC_def set_next_def set_prev_def)
  let ?a' = "app_paused\<lparr>queue := remove_node (Some 1) queue_ABC,
                          active_playlist_name := ''Queue'',
                          current_view_songs := [song_A, song_C]\<rparr>"
  have 3: "remove_from_queue_ui 1 app_paused = Some ?a'"
    using 2 s
    by (simp add: remove_from_queue_ui_def q show_queue_def Let_def)
       (simp add: app_paused_def app_ABC_def queue_ABC_def)
  have t: "List.find (\<lambda>s. title s = t \<and> artist s = ar) [song_A, song_C] \<noteq> Some song_B"
    for t ar by (simp add: song_A_def song_B_def song_C_def)
  have 4: "toggle_play None True True True (\<lambda>i. 0) [] ?a'
           = Some (?a'\<lparr>mixer := mixer app_paused @ [Unpause], is_playing := True,
                       btn_play := Pause_icon\<rparr>)"
    using c by (simp add: toggle_play_def Let_def) (simp add: app_paused_def app_ABC_def)
  have 5: "mixer ?a' = mixer app_paused" "Stop \<notin> set (mixer ?a')"
    "lbl_now_title ?a' = ''B''" "lbl_now_artist ?a' = ''Y''"
    by (simp_all add: app_paused_def app_ABC_def)
  have 6: "current (queue app_paused) = Some 1" "\<not> is_playing app_paused"
    by (simp_all add: q queue_ABC_def) (simp add: app_paused_def)
  from 1 2 3 4 5 6 s c show ?thesis by (simp add: q)
qed

subsection \<open>The play button on an empty queue\<close>

lemma inv_empty_current: "dll_inv q \<Longrightarrow> head q = None \<Longrightarrow> current q = None"
  by (cases "current q") (auto simp: dll_inv_def nodes_of_def)

theorem toggle_play_empty_counterexample:
  "dll_inv (queue app_started) \<and> nodes_of (queue app_started) = Some []
   \<and> current (queue app_started) = None \<and> \<not> is_playing app_started
   \<and> (\<exists>a'. toggle_play None False False False (\<lambda>i. 0) [reply_ok] app_started = Some a'
          \<and> is_playing a' \<and> current (queue a') = Some 0
          \<and> songs_of (queue a') = Some [song_A])"
proof -
  have q: "queue app_started = DoublyLinkedList" by (simp add: app_started_def)
  have n: "nodes_of DoublyLinkedList = Some []"
    by (simp add: nodes_of_def DoublyLinkedList_def)
  have i: "dll_inv (DoublyLinkedList :: song dll)"
    by (simp add: dll_inv_def n) (simp add: DoublyLinkedList_def)
  have "\<exists>a'. toggle_play None False False False (\<lambda>i. 0) [reply_ok] app_started = Some a'
          \<and> is_playing a' \<and> current (queue a') = Some 0
          \<and> songs_of (queue a') = Some [song_A]"
    by (simp add: toggle_play_def play_specific_song_def app_started_def DoublyLinkedList_def
          clear_def append_dll_def Let_def reply_ok_def songs_of_def nodes_of_def Node_def)
  with i n show ?thesis by (simp add: q) (simp add: DoublyLinkedList_def app_started_def)
qed

text \<open>
  Claim C8, as amended. When the queue is empty (and satisfies the structural
  invariants), the controller is not playing, and the current view has no song or
  \<^verbatim>\<open>pygame\<close> is not available, \<^verbatim>\<open>toggle_play\<close> returns with the whole state unchanged,
  whatever row is selected and whatever the backend answers: \<^verbatim>\<open>is_playing\<close> stays false
  and current stays \<^verbatim>\<open>None\<close>.
\<close>

theorem toggle_play_empty:
  assumes "dll_inv (queue a)" and "head (queue a) = None" and "\<not> is_playing a"
    and "current_view_songs a = [] \<or> \<not> has_deps a"
  shows "toggle_play sel pos busy1 busy2 draw rs a = Some a"
proof (cases "has_deps a")
  case False
  then show ?thesis by (simp add: toggle_play_def)
next
  case True
  with assms(4) have v: "current_view_songs a = []" by simp
  have c: "current (queue a) = None" using assms(1,2) by (rule inv_empty_current)
  have s: "(case sel of None \<Rightarrow> None
            | Some (t, ar) \<Rightarrow> List.find (\<lambda>s. title s = t \<and> artist s = ar) (current_view_songs a))
           = None"
    using v by (simp split: option.splits prod.splits)
  show ?thesis
    unfolding toggle_play_def s using c v assms(3) by (simp add: Let_def)
qed

theorem toggle_play_empty_witness:
  "dll_inv (queue app_no_songs) \<and> head (queue app_no_songs) = None
   \<and> \<not> is_playing app_no_songs \<and> current_view_songs app_no_songs = []
   \<and> toggle_play None True False False (\<lambda>i. 0) [reply_ok] app_no_songs = Some app_no_songs
   \<and> current (queue app_no_songs) = None
   \<and> dll_inv (queue app_no_pygame) \<and> head (queue app_no_pygame) = None
   \<and> \<not> is_playing app_no_pygame \<and> \<not> has_deps app_no_pygame
   \<and> current_view_songs app_no_pygame = [song_A]
   \<and> toggle_play (Some (''A'', ''X'')) False False False (\<lambda>i. 0) [reply_ok] app_no_pygame
       = Some app_no_pygame"
proof -
  have q: "queue app_no_songs = DoublyLinkedList" "queue app_no_pygame = DoublyLinkedList"
    by (simp_all add: app_no_songs_def app_no_pygame_def app_started_def)
  have i: "dll_inv (queue app_no_songs)" "dll_inv (queue app_no_pygame)"
    using new_queue_inv [where ?'a = song] by (simp_all add: q)
  have h: "head (queue app_no_songs) = None" "head (queue app_no_pygame) = None"
    by (simp_all add: q DoublyLinkedList_def)
  have p: "\<not> is_playing app_no_songs" "\<not> is_playing app_no_pygame"
    by (simp_all add: app_no_songs_def app_no_pygame_def app_started_def)
  have v: "current_view_songs app_no_songs = []" "\<not> has_deps app_no_pygame"
    "current_view_songs app_no_pygame = [song_A]"
    by (simp_all add: app_no_songs_def app_no_pygame_def app_started_def)
  have d1: "current_view_songs app_no_songs = [] \<or> \<not> has_deps app_no_songs"
    using v(1) by simp
  have d2: "current_view_songs app_no_pygame = [] \<or> \<not> has_deps app_no_pygame"
    using v(2) by simp
  from toggle_play_empty [OF i(1) h(1) p(1) d1, of None True False False "\<lambda>i. 0" "[reply_ok]"]
    toggle_play_empty [OF i(2) h(2) p(2) d2, of "Some (''A'', ''X'')" False False False "\<lambda>i. 0" "[reply_ok]"]
    i h p v
  show ?thesis by (simp add: q DoublyLinkedList_def)
qed

subsection \<open>Shuffle on, shuffle off\<close>

lemma load_view_rep:
  "rep q ns \<Longrightarrow>
     \<exists>q' node'. load_view view wanted q node = Some (q', node')
        \<and> append_all view q = Some q'
        \<and> (case node' of
              None \<Rightarrow> node = None \<and> wanted \<notin> Some ` set view
            | Some b \<Rightarrow>
                (Some b = node \<and> wanted \<notin> Some ` set view)
                \<or> (\<exists>j < length view. b = length (store q) + j \<and> wanted = Some (view ! j)))"
proof (induction view arbitrary: q ns node)
  case Nil
  then show ?case by (simp split: option.splits)
next
  case (Cons s view)
  let ?l = "length (store q)"
  let ?node1 = "if wanted = Some s then Some ?l else node"
  from append_rep [OF Cons.prems, of s] obtain q1 where
    a: "append_dll s q = Some q1" and r1: "rep q1 (ns @ [?l])"
    and l1: "length (store q1) = Suc ?l"
    by blast
  from r1 have t1: "tail q1 = Some ?l" by (simp add: rep_def)
  from Cons.IH [OF r1, of ?node1] obtain q' node' where
    b: "load_view view wanted q1 ?node1 = Some (q', node')"
    and c: "append_all view q1 = Some q'"
    and d: "case node' of
              None \<Rightarrow> ?node1 = None \<and> wanted \<notin> Some ` set view
            | Some b \<Rightarrow>
                (Some b = ?node1 \<and> wanted \<notin> Some ` set view)
                \<or> (\<exists>j < length view. b = length (store q1) + j \<and> wanted = Some (view ! j))"
    by blast
  have 1: "load_view (s # view) wanted q node = Some (q', node')"
    using a b t1 by (cases "wanted = Some s") simp_all
  have 2: "append_all (s # view) q = Some q'" using a c by simp
  have 3: "case node' of
              None \<Rightarrow> node = None \<and> wanted \<notin> Some ` set (s # view)
            | Some b \<Rightarrow>
                (Some b = node \<and> wanted \<notin> Some ` set (s # view))
                \<or> (\<exists>j < length (s # view). b = ?l + j \<and> wanted = Some ((s # view) ! j))"
  proof (cases node')
    case None
    with d show ?thesis by (auto split: if_splits)
  next
    case (Some b)
    with d have "(Some b = ?node1 \<and> wanted \<notin> Some ` set view)
                \<or> (\<exists>j < length view. b = Suc ?l + j \<and> wanted = Some (view ! j))"
      by (simp add: l1)
    then show ?thesis
    proof
      assume e: "Some b = ?node1 \<and> wanted \<notin> Some ` set view"
      show ?thesis
      proof (cases "wanted = Some s")
        case True
        with e have "b = ?l + 0 \<and> wanted = Some ((s # view) ! 0)" by simp
        then have "\<exists>j < length (s # view). b = ?l + j \<and> wanted = Some ((s # view) ! j)"
          by (intro exI [of _ 0]) simp
        then show ?thesis by (simp add: Some)
      next
        case False
        with e show ?thesis by (auto simp: Some)
      qed
    next
      assume "\<exists>j < length view. b = Suc ?l + j \<and> wanted = Some (view ! j)"
      then obtain j where j: "j < length view" "b = Suc ?l + j" "wanted = Some (view ! j)"
        by blast
      then have "Suc j < length (s # view) \<and> b = ?l + Suc j \<and> wanted = Some ((s # view) ! Suc j)"
        by simp
      then have "\<exists>j < length (s # view). b = ?l + j \<and> wanted = Some ((s # view) ! j)"
        by (intro exI [of _ "Suc j"]) 
      then show ?thesis by (simp add: Some)
    qed
  qed
  from 1 2 3 show ?case by blast
qed

lemma songs_of_current [simp]: "songs_of (q\<lparr>current := c\<rparr>) = songs_of q"
  by (simp add: songs_of_def nodes_of_def)

lemma unshuffle_rebuilds:
  assumes "is_shuffled a"
  shows "\<exists>a'. toggle_shuffle draw a = Some a'
           \<and> \<not> is_shuffled a'
           \<and> current_view_songs a' = current_view_songs a
           \<and> songs_of (queue a') = Some (current_view_songs a)
           \<and> dll_inv (queue a')
           \<and> (case current (queue a) of
                 None \<Rightarrow> current (queue a') = None
               | Some c \<Rightarrow>
                   if data (store (queue a) ! c) \<in> set (current_view_songs a)
                   then (\<exists>c'. current (queue a') = Some c'
                           \<and> data (store (queue a') ! c') = data (store (queue a) ! c))
                   else current (queue a') = None)"
proof -
  let ?view = "current_view_songs a"
  let ?q0 = "clear (queue a)"
  let ?l = "length (store ?q0)"
  let ?wanted = "case current (queue a) of
                   None \<Rightarrow> None
                 | Some c \<Rightarrow> Some (data (store (queue a) ! c))"
  from load_view_rep [OF clear_rep [of "queue a"], where view = ?view and wanted = ?wanted
      and node = None] obtain q' node' where
    lv: "load_view ?view ?wanted ?q0 None = Some (q', node')"
    and aa: "append_all ?view ?q0 = Some q'"
    and nd0: "case node' of
              None \<Rightarrow> None = (None :: nat option) \<and> ?wanted \<notin> Some ` set ?view
            | Some b \<Rightarrow>
                (Some b = None \<and> ?wanted \<notin> Some ` set ?view)
                \<or> (\<exists>j < length ?view. b = ?l + j \<and> ?wanted = Some (?view ! j))"
    by blast
  have nd_none: "?wanted \<notin> Some ` set ?view" if "node' = None"
    using nd0 that by simp
  have nd_some: "\<exists>j < length ?view. b = ?l + j \<and> ?wanted = Some (?view ! j)"
    if "node' = Some b" for b
    using nd0 that by simp
  from append_all_rep [OF clear_rep [of "queue a"], where xs = ?view] aa
  have r': "rep q' ([] @ [?l..<?l + length ?view])"
    and dt: "\<forall>j < length ?view. data (store q' ! (?l + j)) = ?view ! j"
    by auto
  from append_all_songs [OF clear_rep [of "queue a"], where xs = ?view] aa
  have so: "songs_of q' = Some ?view" by auto
  let ?q = "q'\<lparr>current := node'\<rparr>"
  have ts: "toggle_shuffle draw a = Some (a\<lparr>is_shuffled := False, queue := ?q\<rparr>)"
    using assms lv by (simp add: toggle_shuffle_def Let_def cong: option.case_cong)
  have nv: "\<forall>b. node' = Some b \<longrightarrow> b \<in> set [?l..<?l + length ?view]"
    using nd_some by auto
  have rq: "rep ?q ([] @ [?l..<?l + length ?view])"
    using r' nv by (simp add: rep_def)
  have cur: "case current (queue a) of
                 None \<Rightarrow> node' = None
               | Some c \<Rightarrow>
                   if data (store (queue a) ! c) \<in> set ?view
                   then (\<exists>c'. node' = Some c'
                           \<and> data (store q' ! c') = data (store (queue a) ! c))
                   else node' = None"
  proof (cases "current (queue a)")
    case None
    show ?thesis
    proof (cases node')
      case N: None
      with None show ?thesis by simp
    next
      case (Some b)
      from nd_some [OF this] None show ?thesis by simp
    qed
  next
    case (Some c)
    show ?thesis
    proof (cases node')
      case None
      from nd_none [OF this] Some have "data (store (queue a) ! c) \<notin> set ?view"
        by (auto simp: image_iff)
      with None Some show ?thesis by simp
    next
      case S: (Some b)
      from nd_some [OF this] Some obtain j where j: "j < length ?view" "b = ?l + j"
        "data (store (queue a) ! c) = ?view ! j" by auto
      with dt have "data (store q' ! b) = data (store (queue a) ! c)" by simp
      moreover have "data (store (queue a) ! c) \<in> set ?view" using j by simp
      ultimately show ?thesis using Some S by simp
    qed
  qed
  from ts so rep_imp_inv [OF rq] cur show ?thesis
    by (auto split: option.splits)
qed


lemma shuffle_queue_ABC: "shuffle (\<lambda>i. 0) queue_ABC = Some queue_BCA"
  by (simp add: shuffle_def queue_ABC_def queue_BCA_def nodes_of_def Let_def swap_def
        relink_step_def set_next_def set_prev_def eval_nat_numeral upt_rec)

lemma toggle_on_app_ABC: "toggle_shuffle (\<lambda>i. 0) app_ABC = Some app_shuffled"
  using shuffle_queue_ABC by (simp add: toggle_shuffle_def app_shuffled_def app_ABC_def Let_def)

lemma songs_queue_BCA: "songs_of queue_BCA = Some [song_B, song_C, song_A]"
  by (simp add: songs_of_def nodes_of_def queue_BCA_def)

text \<open>
  Claim C5. Let the queue \<open>q0\<close> satisfy the structural invariants and hold the songs of
  the current view in the order of the view, as it does when it was built from the
  view; let the application be in shuffle mode with the queue that \<^verbatim>\<open>shuffle\<close> made of
  \<open>q0\<close>, and the view be the same. Then toggling shuffle off returns, leaves shuffle mode,
  and the head-to-tail order of the songs of the queue is again that of \<open>q0\<close>. If current
  pointed at a track of the view, it points afterwards at a node that holds this track;
  if it pointed at no node, or at a track that the view does not have, it is \<^verbatim>\<open>None\<close>.
\<close>

theorem shuffle_unshuffle_roundtrip:
  assumes "dll_inv q0" and "songs_of q0 = Some (current_view_songs a1)"
    and "shuffle draw q0 = Some (queue a1)" and "is_shuffled a1"
  shows "\<exists>a2. toggle_shuffle draw' a1 = Some a2
           \<and> \<not> is_shuffled a2
           \<and> current_view_songs a2 = current_view_songs a1
           \<and> songs_of (queue a2) = songs_of q0
           \<and> dll_inv (queue a2)
           \<and> (case current (queue a1) of
                 None \<Rightarrow> current (queue a2) = None
               | Some c \<Rightarrow>
                   if data (store (queue a1) ! c) \<in> set (current_view_songs a1)
                   then (\<exists>c'. current (queue a2) = Some c'
                           \<and> data (store (queue a2) ! c') = data (store (queue a1) ! c))
                   else current (queue a2) = None)"
proof -
  from unshuffle_rebuilds [OF assms(4), of draw'] obtain a2 where
    2: "toggle_shuffle draw' a1 = Some a2" and n: "\<not> is_shuffled a2"
    and v: "current_view_songs a2 = current_view_songs a1"
    and so: "songs_of (queue a2) = Some (current_view_songs a1)"
    and i: "dll_inv (queue a2)"
    and cu: "case current (queue a1) of
                 None \<Rightarrow> current (queue a2) = None
               | Some c \<Rightarrow>
                   if data (store (queue a1) ! c) \<in> set (current_view_songs a1)
                   then (\<exists>c'. current (queue a2) = Some c'
                           \<and> data (store (queue a2) ! c') = data (store (queue a1) ! c))
                   else current (queue a2) = None"
    by blast
  have "songs_of (queue a2) = songs_of q0" using so assms(2) by simp
  with 2 n v i cu show ?thesis by blast
qed

theorem shuffle_unshuffle_roundtrip_witness:
  "dll_inv queue_ABC \<and> songs_of queue_ABC = Some [song_A, song_B, song_C]
   \<and> current_view_songs app_shuffled = [song_A, song_B, song_C]
   \<and> toggle_shuffle (\<lambda>i. 0) app_ABC = Some app_shuffled
   \<and> shuffle (\<lambda>i. 0) queue_ABC = Some (queue app_shuffled)
   \<and> is_shuffled app_shuffled
   \<and> songs_of (queue app_shuffled) = Some [song_B, song_C, song_A]
   \<and> current (queue app_shuffled) = Some 1
   \<and> data (store (queue app_shuffled) ! 1) = song_B
   \<and> (\<exists>a2. toggle_shuffle (\<lambda>i. 0) app_shuffled = Some a2
          \<and> \<not> is_shuffled a2
          \<and> songs_of (queue a2) = Some [song_A, song_B, song_C]
          \<and> (\<exists>c'. current (queue a2) = Some c' \<and> data (store (queue a2) ! c') = song_B))"
proof -
  have q: "queue app_shuffled = queue_BCA" and sh: "is_shuffled app_shuffled"
    and v: "current_view_songs app_shuffled = [song_A, song_B, song_C]"
    by (simp_all add: app_shuffled_def app_ABC_def)
  have s0: "songs_of queue_ABC = Some [song_A, song_B, song_C]"
    using queue_ABC_nodes by (simp add: songs_of_def) (simp add: queue_ABC_def)
  have s0': "songs_of queue_ABC = Some (current_view_songs app_shuffled)"
    using s0 v by simp
  have s1: "shuffle (\<lambda>i. 0) queue_ABC = Some (queue app_shuffled)"
    using shuffle_queue_ABC by (simp add: q)
  have c: "current (queue app_shuffled) = Some 1" "data (store (queue app_shuffled) ! 1) = song_B"
    by (simp_all add: q queue_BCA_def)
  from shuffle_unshuffle_roundtrip [OF queue_ABC_inv s0' s1 sh, of "\<lambda>i. 0"] obtain a2 where
    2: "toggle_shuffle (\<lambda>i. 0) app_shuffled = Some a2" and n: "\<not> is_shuffled a2"
    and so: "songs_of (queue a2) = songs_of queue_ABC"
    and cu: "case current (queue app_shuffled) of
                 None \<Rightarrow> current (queue a2) = None
               | Some c \<Rightarrow>
                   if data (store (queue app_shuffled) ! c) \<in> set (current_view_songs app_shuffled)
                   then (\<exists>c'. current (queue a2) = Some c'
                           \<and> data (store (queue a2) ! c') = data (store (queue app_shuffled) ! c))
                   else current (queue a2) = None"
    by blast
  have "\<exists>c'. current (queue a2) = Some c' \<and> data (store (queue a2) ! c') = song_B"
    using cu c v by simp
  with 2 n so s0 queue_ABC_inv v toggle_on_app_ABC s1 sh songs_queue_BCA c
  show ?thesis by (simp add: q)
qed

end
